theory Spec2Isabelle
  imports
    Complex_Main
    "HOL-Library.AList"
    "HOL-Library.Char_ord"
    "HOL-Library.List_Lexorder"
    "HOL-Library.Multiset"
begin

section \<open>The values the TypeScript code handles\<close>

text \<open>
  The OpenAPI document, every schema fragment and every response body is a value that
  \<^verbatim>\<open>JSON.parse\<close> produced. Numbers are rationals: the code only ever tests them for
  truthiness or converts them to text. A string is the list of its code units. An object is
  its member list, keys distinct, in the order \<^verbatim>\<open>Object.keys\<close> enumerates it; where a
  list repeats a key the last member counts, as it does for \<^verbatim>\<open>JSON.parse\<close>, in lookup
  and in spread alike.

  A lookup by a key that the document chooses (\<^verbatim>\<open>current?.[part]\<close> in \<^verbatim>\<open>resolveRef\<close>) also
  reaches what a value inherits from the platform: \<^verbatim>\<open>{}.constructor\<close> is the function
  \<^verbatim>\<open>Object\<close>. Such a lookup can leave JSON data, so there are two more kinds of value:
  \<open>JFunction\<close>, a built-in function, and \<open>JBuiltin\<close>, a built-in object that is not callable
  (a prototype); each carries the name the platform knows it by. Neither has an enumerable
  property of its own, so \<^verbatim>\<open>Object.entries\<close> and spread find nothing in them.

  The engine's rule that array-index-like keys of an object are enumerated first, in numeric
  order, is not applied to the objects the code builds: their member lists are in
  insertion order.
\<close>

datatype json =
    JNull
  | JBool bool
  | JNum rat
  | JStr string
  | JArr "json list"
  | JObj "(string \<times> json) list"
  | JFunction string
  | JBuiltin string

text \<open>\<^verbatim>\<open>!!v\<close>: what \<^verbatim>\<open>if (v)\<close>, \<^verbatim>\<open>v || d\<close> and \<^verbatim>\<open>Boolean(v)\<close> test.\<close>

fun truthy :: "json \<Rightarrow> bool" where
  "truthy JNull = False"
| "truthy (JBool b) = b"
| "truthy (JNum n) = (n \<noteq> 0)"
| "truthy (JStr s) = (s \<noteq> [])"
| "truthy (JArr xs) = True"
| "truthy (JObj kvs) = True"
| "truthy (JFunction n) = True"
| "truthy (JBuiltin n) = True"

text \<open>
  \<^verbatim>\<open>typeof v === 'object'\<close>, which holds of \<^verbatim>\<open>null\<close> and of arrays too, and not of a
  function.
\<close>

fun typeof_object :: "json \<Rightarrow> bool" where
  "typeof_object JNull = True"
| "typeof_object (JArr xs) = True"
| "typeof_object (JObj kvs) = True"
| "typeof_object (JBuiltin n) = True"
| "typeof_object _ = False"

text \<open>Decimal text of a natural number: the key of an array element, an HTTP status.\<close>

function show_nat :: "nat \<Rightarrow> string" where
  "show_nat n =
     (if n < 10 then [''0123456789'' ! n]
      else show_nat (n div 10) @ [''0123456789'' ! (n mod 10)])"
  by pat_completeness auto
termination
  by (relation "measure (\<lambda>n. n)") auto

declare show_nat.simps [simp del]

fun indexed_from :: "nat \<Rightarrow> 'a list \<Rightarrow> (string \<times> 'a) list" where
  "indexed_from i [] = []"
| "indexed_from i (x # xs) = (show_nat i, x) # indexed_from (Suc i) xs"

text \<open>
  The own enumerable properties of a value, as \<^verbatim>\<open>Object.entries\<close>, \<^verbatim>\<open>Object.keys\<close> and
  object spread read them: the members of an object, the indexed elements of an array, the
  indexed characters of a string, nothing for the other values.
\<close>

fun entries :: "json \<Rightarrow> (string \<times> json) list" where
  "entries (JObj kvs) = kvs"
| "entries (JArr xs) = indexed_from 0 xs"
| "entries (JStr s) = indexed_from 0 (map (\<lambda>c. JStr [c]) s)"
| "entries _ = []"

text \<open>
  \<^verbatim>\<open>v?.k\<close> for a key \<^verbatim>\<open>k\<close> that the code names, with \<open>None\<close> for \<^verbatim>\<open>undefined\<close>: the own
  property by that name. Arrays and strings also answer \<^verbatim>\<open>length\<close>. The keys the code
  names this way (\<^verbatim>\<open>$ref\<close>, \<^verbatim>\<open>allOf\<close>, \<^verbatim>\<open>items\<close>, \<^verbatim>\<open>properties\<close>, \<^verbatim>\<open>paths\<close>, \<^verbatim>\<open>parameters\<close>,
  the seven method names, \<^verbatim>\<open>requestBody\<close>, \<^verbatim>\<open>content\<close>, \<^verbatim>\<open>schema\<close>, \<^verbatim>\<open>summary\<close>,
  \<^verbatim>\<open>operationId\<close>, \<^verbatim>\<open>description\<close>, \<^verbatim>\<open>tags\<close>, \<^verbatim>\<open>responses\<close>, \<^verbatim>\<open>required\<close>, \<^verbatim>\<open>detail\<close>) are
  read from JSON data, and no prototype of a JSON value (of an object, an array, a string, a
  number, a boolean) has a member by one of these names; \<^verbatim>\<open>$ref\<close> and \<^verbatim>\<open>allOf\<close> are also
  read from what a pointer reached, and no built-in has a member by either name. So on
  these keys nothing is inherited.
  On \<^verbatim>\<open>null\<close> the optional chain gives \<^verbatim>\<open>undefined\<close>; the code never reads a property of
  a possibly-null value without it.
\<close>

fun js_get :: "json \<Rightarrow> string \<Rightarrow> json option" where
  "js_get (JObj kvs) k = map_of (rev kvs) k"
| "js_get (JArr xs) k =
     (if k = ''length'' then Some (JNum (of_nat (length xs)))
      else map_of (indexed_from 0 xs) k)"
| "js_get (JStr s) k =
     (if k = ''length'' then Some (JNum (of_nat (length s)))
      else map_of (indexed_from 0 (map (\<lambda>c. JStr [c]) s)) k)"
| "js_get _ k = None"

text \<open>\<^verbatim>\<open>x?.k\<close> where \<^verbatim>\<open>x\<close> may already be \<^verbatim>\<open>undefined\<close>.\<close>

definition opt_get :: "json option \<Rightarrow> string \<Rightarrow> json option" where
  "opt_get x k = (case x of None \<Rightarrow> None | Some v \<Rightarrow> js_get v k)"

text \<open>\<^verbatim>\<open>x || d\<close> and \<^verbatim>\<open>Boolean(x)\<close> for a possibly undefined \<^verbatim>\<open>x\<close>.\<close>

definition js_or :: "json option \<Rightarrow> json \<Rightarrow> json" where
  "js_or x d = (case x of None \<Rightarrow> d | Some v \<Rightarrow> if truthy v then v else d)"

definition truthy_opt :: "json option \<Rightarrow> bool" where
  "truthy_opt x = (case x of None \<Rightarrow> False | Some v \<Rightarrow> truthy v)"

text \<open>\<^verbatim>\<open>Array.isArray(x) ? x : []\<close>.\<close>

definition array_or_empty :: "json option \<Rightarrow> json list" where
  "array_or_empty x = (case x of Some (JArr xs) \<Rightarrow> xs | _ \<Rightarrow> [])"

text \<open>
  Copying properties into an object under construction: an existing key keeps its place and
  takes the new value, a new key goes to the end. \<^verbatim>\<open>{...a, ...b}\<close> is
  \<open>assign (assign [] a) b\<close>, and \<^verbatim>\<open>o[k] = v\<close> is \<open>AList.update k v o\<close>.
\<close>

definition assign :: "(string \<times> json) list \<Rightarrow> (string \<times> json) list \<Rightarrow> (string \<times> json) list" where
  "assign target src = fold (\<lambda>(k, v). AList.update k v) src target"

text \<open>The properties that \<^verbatim>\<open>...(v || {})\<close> spreads.\<close>

definition spread_entries :: "json \<Rightarrow> (string \<times> json) list" where
  "spread_entries v = (if truthy v then entries v else [])"

fun join :: "string \<Rightarrow> string list \<Rightarrow> string" where
  "join sep [] = []"
| "join sep [x] = x"
| "join sep (x # y # ys) = x @ sep @ join sep (y # ys)"

text \<open>\<^verbatim>\<open>s.split(c)\<close> for a one-character separator: never empty, \<^verbatim>\<open>''.split('/')\<close> is \<^verbatim>\<open>['']\<close>.\<close>

fun split_on :: "char \<Rightarrow> string \<Rightarrow> string list" where
  "split_on c [] = [[]]"
| "split_on c (x # xs) =
     (if x = c then [] # split_on c xs
      else (case split_on c xs of [] \<Rightarrow> [[x]] | w # ws \<Rightarrow> (x # w) # ws))"

text \<open>
  \<^verbatim>\<open>toUpperCase\<close>, on the ASCII letters; the code applies it to the seven method names only.
\<close>

definition toUpperCase :: "string \<Rightarrow> string" where
  "toUpperCase s =
     map (\<lambda>c. case map_of (zip ''abcdefghijklmnopqrstuvwxyz'' ''ABCDEFGHIJKLMNOPQRSTUVWXYZ'') c of
                 None \<Rightarrow> c | Some u \<Rightarrow> u) s"

datatype js_error = TypeError | Error string

text \<open>
  What a built-in can hand out as one of its members: a primitive, a built-in function or a
  built-in object; never a JSON array or object.
\<close>

datatype native =
    NNull
  | NBool bool
  | NNum rat
  | NStr string
  | NFunction string
  | NObject string

fun of_native :: "native \<Rightarrow> json" where
  "of_native NNull = JNull"
| "of_native (NBool b) = JBool b"
| "of_native (NNum n) = JNum n"
| "of_native (NStr s) = JStr s"
| "of_native (NFunction n) = JFunction n"
| "of_native (NObject n) = JBuiltin n"

text \<open>
  What the platform supplies and the repository does not define: the collation of
  \<^verbatim>\<open>String.prototype.localeCompare\<close>, the text of a number and of a built-in, and
  \<open>inherited\<close>, the members a value has beyond the own properties that \<open>js_get\<close> answers:
  those of its prototype chain and, for a built-in, its own. \<open>inherited h v k\<close> is \<open>Inr None\<close>
  when \<^verbatim>\<open>v\<close> has no such member \<^verbatim>\<open>k\<close>, \<open>Inr (Some m)\<close> when it has the member \<open>m\<close>, and
  \<open>Inl e\<close> when the member is an accessor that throws \<^verbatim>\<open>e\<close>, as \<^verbatim>\<open>caller\<close> and \<^verbatim>\<open>arguments\<close>
  of a built-in function do.
\<close>

record host =
  localeCompare :: "string \<Rightarrow> string \<Rightarrow> int"
  numberToString :: "rat \<Rightarrow> string"
  builtinToString :: "json \<Rightarrow> string"
  inherited :: "json \<Rightarrow> string \<Rightarrow> js_error + native option"

text \<open>
  \<^verbatim>\<open>v?.[k]\<close> for any key: the own property, else the inherited member; \<^verbatim>\<open>undefined\<close> on
  \<^verbatim>\<open>null\<close>.
\<close>

definition js_index :: "host \<Rightarrow> json \<Rightarrow> string \<Rightarrow> js_error + json option" where
  "js_index h v k =
     (case js_get v k of
        Some c \<Rightarrow> Inr (Some c)
      | None \<Rightarrow>
          if v = JNull then Inr None
          else (case inherited h v k of
                  Inl e \<Rightarrow> Inl e
                | Inr m \<Rightarrow> Inr (map_option of_native m)))"

text \<open>\<^verbatim>\<open>String(v)\<close> and \<^verbatim>\<open>`${v}`\<close>; an array joins its elements, \<^verbatim>\<open>null\<close> ones as empty.\<close>

fun js_String :: "host \<Rightarrow> json \<Rightarrow> string" where
  "js_String h JNull = ''null''"
| "js_String h (JBool b) = (if b then ''true'' else ''false'')"
| "js_String h (JNum n) = numberToString h n"
| "js_String h (JStr s) = s"
| "js_String h (JArr xs) = join '','' (map (\<lambda>x. if x = JNull then [] else js_String h x) xs)"
| "js_String h (JObj kvs) = ''[object Object]''"
| "js_String h (JFunction n) = builtinToString h (JFunction n)"
| "js_String h (JBuiltin n) = builtinToString h (JBuiltin n)"

fun map_err :: "('a \<Rightarrow> js_error + 'b) \<Rightarrow> 'a list \<Rightarrow> js_error + 'b list" where
  "map_err f [] = Inr []"
| "map_err f (x # xs) =
     (case f x of
        Inl e \<Rightarrow> Inl e
      | Inr y \<Rightarrow> (case map_err f xs of Inl e \<Rightarrow> Inl e | Inr ys \<Rightarrow> Inr (y # ys)))"

text \<open>
  \<^verbatim>\<open>Array.prototype.sort(cmp)\<close>, which is stable: an insertion sort that puts an element
  before the first one it does not compare greater than.
\<close>

fun insert_by :: "('a \<Rightarrow> 'a \<Rightarrow> int) \<Rightarrow> 'a \<Rightarrow> 'a list \<Rightarrow> 'a list" where
  "insert_by cmp x [] = [x]"
| "insert_by cmp x (y # ys) = (if cmp x y \<le> 0 then x # y # ys else y # insert_by cmp x ys)"

definition sort_by :: "('a \<Rightarrow> 'a \<Rightarrow> int) \<Rightarrow> 'a list \<Rightarrow> 'a list" where
  "sort_by cmp xs = foldr (insert_by cmp) xs []"

section \<open>The OpenAPI schema resolver (DebugPage)\<close>

subsection \<open>\<^verbatim>\<open>resolveRef\<close>\<close>

text \<open>
  The loop of \<^verbatim>\<open>resolveRef\<close>: index by each part in turn, \<^verbatim>\<open>null\<close> at the first part that
  gives \<^verbatim>\<open>undefined\<close>; what an accessor throws on the way leaves the loop and the function.
\<close>

fun walk :: "host \<Rightarrow> json \<Rightarrow> string list \<Rightarrow> js_error + json" where
  "walk h current [] = Inr current"
| "walk h current (part # parts) =
     (case js_index h current part of
        Inl e \<Rightarrow> Inl e
      | Inr None \<Rightarrow> Inr JNull
      | Inr (Some v) \<Rightarrow> walk h v parts)"

definition resolveRef :: "host \<Rightarrow> string \<Rightarrow> json \<Rightarrow> js_error + json" where
  "resolveRef h ref spec =
     (if take 2 ref \<noteq> ''#/'' then Inr JNull else walk h spec (split_on CHR ''/'' (drop 2 ref)))"

subsection \<open>\<^verbatim>\<open>resolveSchema\<close>\<close>

text \<open>\<^verbatim>\<open>schema.$ref && typeof schema.$ref === 'string'\<close>: the reference, when there is one.\<close>

definition ref_of :: "json \<Rightarrow> string option" where
  "ref_of schema =
     (case js_get schema ''$ref'' of
        Some (JStr r) \<Rightarrow> if r \<noteq> [] then Some r else None
      | _ \<Rightarrow> None)"

text \<open>\<^verbatim>\<open>Array.isArray(schema.allOf)\<close>: the members, when it is an array.\<close>

definition allOf_of :: "json \<Rightarrow> json list option" where
  "allOf_of schema = (case js_get schema ''allOf'' of Some (JArr parts) \<Rightarrow> Some parts | _ \<Rightarrow> None)"

text \<open>
  \<^verbatim>\<open>seen\<close> is a mutable \<^verbatim>\<open>Set\<close> that the recursive calls share, so the function returns it
  next to the resolved schema. \<open>resolveAllOf\<close> is the \<^verbatim>\<open>reduce\<close> over \<^verbatim>\<open>schema.allOf\<close>, which
  hands the same set to every member; \<open>resolveProps\<close> is the loop over
  \<^verbatim>\<open>Object.entries(next.properties)\<close>, which hands each value a copy (\<^verbatim>\<open>new Set(seen)\<close>) and
  so leaves the set as it was. An exception, which only \<^verbatim>\<open>resolveRef\<close> can raise, ends every
  call it passes through: none of them catches it.
\<close>

function resolveSchema :: "host \<Rightarrow> json \<Rightarrow> json \<Rightarrow> string set \<Rightarrow> js_error + json \<times> string set"
  and resolveAllOf ::
    "host \<Rightarrow> json list \<Rightarrow> json \<Rightarrow> string set \<Rightarrow> (string \<times> json) list
       \<Rightarrow> js_error + json \<times> string set"
  and resolveProps ::
    "host \<Rightarrow> (string \<times> json) list \<Rightarrow> json \<Rightarrow> string set \<Rightarrow> (string \<times> json) list
       \<Rightarrow> js_error + (string \<times> json) list"
where
  "resolveSchema h schema spec seen =
     (if \<not> truthy schema \<or> \<not> typeof_object schema then Inr (schema, seen)
      else case ref_of schema of
        Some r \<Rightarrow>
          if r \<in> seen then Inr (JObj [(''type'', JStr ''object'')], seen)
          else (case resolveRef h r spec of
                  Inl e \<Rightarrow> Inl e
                | Inr target \<Rightarrow>
                    (case resolveSchema h target spec (insert r seen) of
                       Inl e \<Rightarrow> Inl e
                     | Inr (resolved, seen1) \<Rightarrow>
                         Inr (JObj (assign (assign [] (spread_entries resolved))
                                      (filter (\<lambda>(k, v). k \<noteq> ''$ref'') (entries schema))), seen1)))
      | None \<Rightarrow>
          (case allOf_of schema of
             Some parts \<Rightarrow> resolveAllOf h parts spec seen []
           | None \<Rightarrow>
              (case (let next0 = assign [] (entries schema)
                     in case map_of next0 ''items'' of
                          None \<Rightarrow> Inr (next0, seen)
                        | Some it \<Rightarrow>
                            if truthy it
                            then (case resolveSchema h it spec seen of
                                    Inl e \<Rightarrow> Inl e
                                  | Inr (r, seen1) \<Rightarrow> Inr (AList.update ''items'' r next0, seen1))
                            else Inr (next0, seen)) of
                 Inl e \<Rightarrow> Inl e
               | Inr (next1, seen1) \<Rightarrow>
                   (case map_of next1 ''properties'' of
                      None \<Rightarrow> Inr (JObj next1, seen1)
                    | Some ps \<Rightarrow>
                        if truthy ps \<and> typeof_object ps
                        then (case resolveProps h (entries ps) spec seen1 [] of
                                Inl e \<Rightarrow> Inl e
                              | Inr props \<Rightarrow>
                                  Inr (JObj (AList.update ''properties'' (JObj props) next1), seen1))
                        else Inr (JObj next1, seen1)))))"
| "resolveAllOf h [] spec seen acc = Inr (JObj acc, seen)"
| "resolveAllOf h (part # parts) spec seen acc =
     (case resolveSchema h part spec seen of
        Inl e \<Rightarrow> Inl e
      | Inr (resolved, seen1) \<Rightarrow>
          resolveAllOf h parts spec seen1 (assign (assign [] acc) (spread_entries resolved)))"
| "resolveProps h [] spec seen props = Inr props"
| "resolveProps h ((k, v) # kvs) spec seen props =
     (case resolveSchema h v spec seen of
        Inl e \<Rightarrow> Inl e
      | Inr (r, seen1) \<Rightarrow> resolveProps h kvs spec seen (AList.update k r props))"
  by pat_completeness auto

text \<open>A call that leaves \<^verbatim>\<open>seen\<close> to its default, \<^verbatim>\<open>new Set()\<close>.\<close>

definition resolveSchema0 :: "host \<Rightarrow> json \<Rightarrow> json \<Rightarrow> js_error + json" where
  "resolveSchema0 h schema spec =
     (case resolveSchema h schema spec {} of Inl e \<Rightarrow> Inl e | Inr (resolved, seen1) \<Rightarrow> Inr resolved)"


section \<open>The operation catalog (DebugPage)\<close>

record ApiOperationParam =
  param_name :: string
  param_in :: string
  param_required :: bool
  param_description :: "json option"
  param_schema :: "json option"

record ApiOperation =
  op_id :: string
  http_method :: string
  path :: string
  summary :: json
  op_description :: "json option"
  tags :: "json list"
  operationId :: "json option"
  parameters :: "ApiOperationParam list"
  requestBodySchema :: json
  requestBodyRequired :: bool
  requestContentType :: "string option"
  responses :: json

text \<open>
  The callback of \<^verbatim>\<open>rawParams.map\<close>. \<^verbatim>\<open>resolveRef\<close> calls \<^verbatim>\<open>ref.startsWith\<close> on whatever
  truthy value \<^verbatim>\<open>p.$ref\<close> holds, which throws a \<^verbatim>\<open>TypeError\<close> unless it is a string.
  \<^verbatim>\<open>resolvedParam\<close> is whatever the pointer reached, a built-in function for one, so its
  five members are read as \<^verbatim>\<open>v?.[k]\<close> reads them, in the order of the object literal.
\<close>

definition resolveParam :: "host \<Rightarrow> json \<Rightarrow> json \<Rightarrow> js_error + ApiOperationParam" where
  "resolveParam h spec p =
     (case (if truthy_opt (js_get p ''$ref'')
            then (case js_get p ''$ref'' of
                    Some (JStr r) \<Rightarrow>
                      (case resolveRef h r spec of
                         Inl e \<Rightarrow> Inl e
                       | Inr target \<Rightarrow> Inr (js_or (Some target) p))
                  | _ \<Rightarrow> Inl TypeError)
            else Inr p) of
        Inl e \<Rightarrow> Inl e
      | Inr resolvedParam \<Rightarrow>
          (case js_index h resolvedParam ''name'' of Inl e \<Rightarrow> Inl e | Inr nm \<Rightarrow>
          (case js_index h resolvedParam ''in'' of Inl e \<Rightarrow> Inl e | Inr pin \<Rightarrow>
          (case js_index h resolvedParam ''required'' of Inl e \<Rightarrow> Inl e | Inr req \<Rightarrow>
          (case js_index h resolvedParam ''description'' of Inl e \<Rightarrow> Inl e | Inr descr \<Rightarrow>
          (case js_index h resolvedParam ''schema'' of Inl e \<Rightarrow> Inl e | Inr sch \<Rightarrow>
          (case resolveSchema0 h (js_or sch (JObj [])) spec of Inl e \<Rightarrow> Inl e | Inr resolved \<Rightarrow>
             Inr \<lparr> param_name = js_String h (js_or nm (JStr [])),
                   param_in = js_String h (js_or pin (JStr ''query'')),
                   param_required = truthy_opt req,
                   param_description = descr,
                   param_schema = Some resolved \<rparr>)))))))"

text \<open>\<^verbatim>\<open>op.requestBody?.content || {}\<close>.\<close>

definition content_of :: "json \<Rightarrow> json" where
  "content_of op = js_or (opt_get (js_get op ''requestBody'') ''content'') (JObj [])"

text \<open>
  \<^verbatim>\<open>content['application/json'] ? 'application/json' : (Object.keys(content)[0] || null)\<close>,
  with \<open>None\<close> for \<^verbatim>\<open>null\<close>.
\<close>

definition requestContentType_of :: "json \<Rightarrow> string option" where
  "requestContentType_of content =
     (if truthy_opt (js_get content ''application/json'') then Some ''application/json''
      else (case map fst (entries content) of
              [] \<Rightarrow> None
            | k # ks \<Rightarrow> if k \<noteq> [] then Some k else None))"

text \<open>
  \<^verbatim>\<open>requestContentType ? resolveSchema(content[requestContentType]?.schema || null, spec) : null\<close>.
\<close>

definition requestBodySchema_of :: "host \<Rightarrow> json \<Rightarrow> json \<Rightarrow> string option \<Rightarrow> js_error + json" where
  "requestBodySchema_of h spec content ct =
     (case ct of
        None \<Rightarrow> Inr JNull
      | Some t \<Rightarrow> resolveSchema0 h (js_or (opt_get (js_get content t) ''schema'') JNull) spec)"

text \<open>The body of the loop over the methods, from \<^verbatim>\<open>rawParams\<close> to \<^verbatim>\<open>out.push\<close>.\<close>

definition buildOperation ::
  "host \<Rightarrow> json \<Rightarrow> string \<Rightarrow> json list \<Rightarrow> string \<Rightarrow> json \<Rightarrow> js_error + ApiOperation" where
  "buildOperation h spec pth pathLevelParams mth op =
     (case map_err (resolveParam h spec)
             (pathLevelParams @ array_or_empty (js_get op ''parameters'')) of
        Inl e \<Rightarrow> Inl e
      | Inr ps \<Rightarrow>
          (let resolvedParams = filter (\<lambda>p. param_name p \<noteq> []) ps;
               content = content_of op;
               ct = requestContentType_of content;
               title = toUpperCase mth @ '' '' @ pth
           in case requestBodySchema_of h spec content ct of
                Inl e \<Rightarrow> Inl e
              | Inr bodySchema \<Rightarrow>
                  Inr \<lparr> op_id = title,
                        http_method = toUpperCase mth,
                        path = pth,
                        summary = js_or (js_get op ''summary'') (js_or (js_get op ''operationId'') (JStr title)),
                        op_description = js_get op ''description'',
                        tags = array_or_empty (js_get op ''tags''),
                        operationId = js_get op ''operationId'',
                        parameters = resolvedParams,
                        requestBodySchema = bodySchema,
                        requestBodyRequired = truthy_opt (opt_get (js_get op ''requestBody'') ''required''),
                        requestContentType = ct,
                        responses = js_or (js_get op ''responses'') (JObj []) \<rparr>))"

definition methods :: "string list" where
  "methods = [''get'', ''post'', ''put'', ''patch'', ''delete'', ''options'', ''head'']"

fun methodLoop ::
  "host \<Rightarrow> json \<Rightarrow> string \<Rightarrow> json \<Rightarrow> json list \<Rightarrow> string list \<Rightarrow> ApiOperation list
     \<Rightarrow> js_error + ApiOperation list" where
  "methodLoop h spec pth pathItem pathLevelParams [] out = Inr out"
| "methodLoop h spec pth pathItem pathLevelParams (mth # ms) out =
     (case js_get pathItem mth of
        None \<Rightarrow> methodLoop h spec pth pathItem pathLevelParams ms out
      | Some op \<Rightarrow>
          if \<not> truthy op \<or> \<not> typeof_object op
          then methodLoop h spec pth pathItem pathLevelParams ms out
          else (case buildOperation h spec pth pathLevelParams mth op of
                  Inl e \<Rightarrow> Inl e
                | Inr operation \<Rightarrow>
                    methodLoop h spec pth pathItem pathLevelParams ms (out @ [operation])))"

fun pathLoop ::
  "host \<Rightarrow> json \<Rightarrow> (string \<times> json) list \<Rightarrow> ApiOperation list \<Rightarrow> js_error + ApiOperation list" where
  "pathLoop h spec [] out = Inr out"
| "pathLoop h spec ((pth, pathItem) # rest) out =
     (if \<not> truthy pathItem \<or> \<not> typeof_object pathItem then pathLoop h spec rest out
      else (case methodLoop h spec pth pathItem
                   (array_or_empty (js_get pathItem ''parameters'')) methods out of
              Inl e \<Rightarrow> Inl e
            | Inr out' \<Rightarrow> pathLoop h spec rest out'))"

text \<open>
  The comparator handed to \<^verbatim>\<open>sort\<close>:
  \<^verbatim>\<open>a.path.localeCompare(b.path) || a.method.localeCompare(b.method)\<close>.
\<close>

definition compareOps :: "host \<Rightarrow> ApiOperation \<Rightarrow> ApiOperation \<Rightarrow> int" where
  "compareOps h a b =
     (if localeCompare h (path a) (path b) \<noteq> 0 then localeCompare h (path a) (path b)
      else localeCompare h (http_method a) (http_method b))"

definition buildApiOperations :: "host \<Rightarrow> json \<Rightarrow> js_error + ApiOperation list" where
  "buildApiOperations h spec =
     (case js_get spec ''paths'' of
        None \<Rightarrow> Inr []
      | Some paths \<Rightarrow>
          if \<not> truthy paths \<or> \<not> typeof_object paths then Inr []
          else (case pathLoop h spec (entries paths) [] of
                  Inl e \<Rightarrow> Inl e
                | Inr out \<Rightarrow> Inr (sort_by (compareOps h) out)))"

text \<open>
  A collation is usable by \<^verbatim>\<open>sort\<close> when swapping its arguments flips its sign and it is
  transitive; the language leaves the result of sorting with any other comparator to the
  engine.
\<close>

definition consistent_compare :: "(string \<Rightarrow> string \<Rightarrow> int) \<Rightarrow> bool" where
  "consistent_compare cmp \<longleftrightarrow>
     (\<forall>a b. sgn (cmp b a) = - sgn (cmp a b)) \<and>
     (\<forall>a b c. cmp a b \<le> 0 \<and> cmp b c \<le> 0 \<longrightarrow> cmp a c \<le> 0)"

text \<open>
  A sample platform for the examples: strings compared by code unit, integral numbers
  written in decimal (a fraction as numerator and denominator, which no example reaches),
  and of the built-ins the members that every engine has and the examples reach: the
  \<^verbatim>\<open>constructor\<close> of an object, which is the function \<^verbatim>\<open>Object\<close>; the \<^verbatim>\<open>name\<close> of a
  function; and the accessors \<^verbatim>\<open>caller\<close> and \<^verbatim>\<open>arguments\<close> that a built-in function
  inherits, which throw a \<^verbatim>\<open>TypeError\<close>.
\<close>

definition codeUnitCompare :: "string \<Rightarrow> string \<Rightarrow> int" where
  "codeUnitCompare a b = (if a < b then - 1 else if b < a then 1 else 0)"

definition show_rat :: "rat \<Rightarrow> string" where
  "show_rat q =
     (case quotient_of q of
        (n, d) \<Rightarrow> (if n < 0 then ''-'' else []) @ show_nat (nat \<bar>n\<bar>)
                    @ (if d = 1 then [] else ''/'' @ show_nat (nat d)))"

definition sample_builtinToString :: "json \<Rightarrow> string" where
  "sample_builtinToString v =
     (case v of
        JFunction n \<Rightarrow> ''function '' @ n @ ''() { [native code] }''
      | _ \<Rightarrow> ''[object Object]'')"

definition sample_inherited :: "json \<Rightarrow> string \<Rightarrow> js_error + native option" where
  "sample_inherited v k =
     (case v of
        JObj kvs \<Rightarrow> if k = ''constructor'' then Inr (Some (NFunction ''Object'')) else Inr None
      | JFunction n \<Rightarrow>
          if k = ''name'' then Inr (Some (NStr n))
          else if k = ''caller'' \<or> k = ''arguments'' then Inl TypeError
          else Inr None
      | _ \<Rightarrow> Inr None)"

definition sample_host :: host where
  "sample_host =
     \<lparr> localeCompare = codeUnitCompare, numberToString = show_rat,
       builtinToString = sample_builtinToString, inherited = sample_inherited \<rparr>"

text \<open>
  A second collation, of the kind engines use for \<^verbatim>\<open>localeCompare\<close>: a character that is
  neither a letter nor a digit goes before the digits, these before the letters, and
  letters are compared without their case first; the code units decide between strings
  that this leaves equal.
\<close>

definition collation_key :: "char \<Rightarrow> nat" where
  "collation_key c =
     (let n = of_char c :: nat
      in if 97 \<le> n \<and> n \<le> 122 then 512 + n
         else if 65 \<le> n \<and> n \<le> 90 then 512 + n + 32
         else if 48 \<le> n \<and> n \<le> 57 then 256 + n
         else n)"

definition punctuationFirstCompare :: "string \<Rightarrow> string \<Rightarrow> int" where
  "punctuationFirstCompare a b =
     (if map collation_key a < map collation_key b then - 1
      else if map collation_key b < map collation_key a then 1
      else codeUnitCompare a b)"

section \<open>The composite input schema (DebugPage)\<close>

text \<open>The loop of \<^verbatim>\<open>buildParameterSchema\<close> over \<^verbatim>\<open>params\<close>, on \<^verbatim>\<open>properties\<close> and \<^verbatim>\<open>required\<close>.\<close>

fun parameterLoop ::
  "ApiOperationParam list \<Rightarrow> (string \<times> json) list \<Rightarrow> string list
     \<Rightarrow> (string \<times> json) list \<times> string list" where
  "parameterLoop [] properties req = (properties, req)"
| "parameterLoop (p # ps) properties req =
     parameterLoop ps
       (AList.update (param_name p) (js_or (param_schema p) (JObj [(''type'', JStr ''string'')])) properties)
       (if param_required p then req @ [param_name p] else req)"

definition buildParameterSchema :: "ApiOperationParam list \<Rightarrow> json" where
  "buildParameterSchema params =
     (case parameterLoop params [] [] of
        (properties, req) \<Rightarrow>
          JObj [(''type'', JStr ''object''), (''properties'', JObj properties),
                (''required'', JArr (map JStr req))])"

definition buildApiInputCompositeSchema :: "ApiOperation option \<Rightarrow> json" where
  "buildApiInputCompositeSchema op =
     (case op of
        None \<Rightarrow> JNull
      | Some operation \<Rightarrow>
          (let pathParams = filter (\<lambda>p. param_in p = ''path'') (parameters operation);
               queryParams = filter (\<lambda>p. param_in p = ''query'') (parameters operation);
               (properties1, required1) =
                  (if pathParams \<noteq> []
                   then ([(''path_params'', buildParameterSchema pathParams)], [''path_params''])
                   else ([], []));
               properties2 =
                  (if queryParams \<noteq> []
                   then AList.update ''query_params'' (buildParameterSchema queryParams) properties1
                   else properties1);
               (properties3, required3) =
                  (if truthy (requestBodySchema operation)
                      \<and> requestContentType operation = Some ''application/json''
                   then (AList.update ''body'' (requestBodySchema operation) properties2,
                         if requestBodyRequired operation then required1 @ [''body''] else required1)
                   else (properties2, required1))
           in JObj [(''type'', JStr ''object''), (''properties'', JObj properties3),
                    (''required'', JArr (map JStr required3))]))"

section \<open>The debug HTTP wrapper (debugApi)\<close>






section \<open>Saving a recommendation result (Chat)\<close>

record Restaurant =
  restaurant_id :: "string option"
  restaurant_name :: string

record RecommendationResponse =
  restaurants :: "Restaurant list"

text \<open>
  The state the operation reads and writes: the \<^verbatim>\<open>savedRecommendationIds\<close> ref, the
  messages \<^verbatim>\<open>addMessage\<close> has persisted, the calls of \<^verbatim>\<open>onMessageAdded\<close>, and the calls of
  \<^verbatim>\<open>saveRecommendationResult\<close> that stand at \<^verbatim>\<open>await addMessage(...)\<close>, each with its
  \<^verbatim>\<open>resultId\<close>, its \<^verbatim>\<open>textContent\<close> and its result.
\<close>

record ChatSession =
  savedRecommendationIds :: "string set"
  persisted :: "(string \<times> string \<times> RecommendationResponse) list"
  notified :: "(string \<times> string) list"
  awaiting :: "(string \<times> string \<times> RecommendationResponse) list"

record ChatProps =
  conversationId :: "string option"
  userId :: "string option"
  onMessageAdded :: bool

text \<open>How the \<^verbatim>\<open>try\<close> block of one call ends once \<^verbatim>\<open>addMessage\<close> has settled.\<close>

datatype save_outcome = Saved | AddMessageThrows | OnMessageAddedThrows

text \<open>\<^verbatim>\<open>r.id || r.name\<close>.\<close>

definition restaurant_key :: "Restaurant \<Rightarrow> string" where
  "restaurant_key r =
     (case restaurant_id r of
        None \<Rightarrow> restaurant_name r
      | Some i \<Rightarrow> if i \<noteq> [] then i else restaurant_name r)"

text \<open>
  \<^verbatim>\<open>resultId\<close>; \<open>now\<close> is \<^verbatim>\<open>Date.now()\<close>. The default \<^verbatim>\<open>sort()\<close> orders strings by code
  unit, which is the order of \<open>string\<close> here.
\<close>

definition resultId :: "nat \<Rightarrow> RecommendationResponse \<Rightarrow> string" where
  "resultId now result =
     (if restaurants result \<noteq> []
      then join '','' (sort (map restaurant_key (restaurants result)))
      else ''empty-'' @ show_nat now)"

definition textContent :: "RecommendationResponse \<Rightarrow> string" where
  "textContent result =
     (if restaurants result \<noteq> []
      then ''Found '' @ show_nat (length (restaurants result)) @ '' restaurant recommendations: ''
             @ join '', '' (map restaurant_name (restaurants result))
      else ''No recommendations found'')"

text \<open>\<^verbatim>\<open>!conversationId || !userId || !onMessageAdded\<close>, negated.\<close>

definition can_save :: "ChatProps \<Rightarrow> bool" where
  "can_save props \<longleftrightarrow>
     conversationId props \<notin> {None, Some []} \<and> userId props \<notin> {None, Some []} \<and> onMessageAdded props"

text \<open>
  \<^verbatim>\<open>saveRecommendationResult\<close> is an \<^verbatim>\<open>async\<close> function, so a call runs in two stretches.
  The first, \<open>save_call\<close>, goes from the entry to \<^verbatim>\<open>await addMessage(...)\<close>: it returns
  early when a prop is missing or the identifier is already in the set, and otherwise has
  sent the message and stands at the \<^verbatim>\<open>await\<close>. The second, \<open>save_resume\<close>, runs when
  \<^verbatim>\<open>addMessage\<close> settles: only then, and only when neither \<^verbatim>\<open>addMessage\<close> nor
  \<^verbatim>\<open>onMessageAdded\<close> threw, is the identifier added to the set. A failed \<^verbatim>\<open>addMessage\<close> is
  taken to have persisted nothing.
\<close>

definition save_call :: "ChatProps \<Rightarrow> nat \<Rightarrow> RecommendationResponse \<Rightarrow> ChatSession \<Rightarrow> ChatSession" where
  "save_call props now result st =
     (if \<not> can_save props then st
      else if resultId now result \<in> savedRecommendationIds st then st
      else st\<lparr> awaiting := awaiting st @ [(resultId now result, textContent result, result)] \<rparr>)"

definition save_resume ::
  "save_outcome \<Rightarrow> string \<times> string \<times> RecommendationResponse \<Rightarrow> ChatSession \<Rightarrow> ChatSession" where
  "save_resume outcome suspended st =
     (case suspended of
        (rid, content, result) \<Rightarrow>
          (case outcome of
             AddMessageThrows \<Rightarrow> st
           | OnMessageAddedThrows \<Rightarrow>
               st\<lparr> persisted := persisted st @ [(''assistant'', content, result)] \<rparr>
           | Saved \<Rightarrow>
               st\<lparr> persisted := persisted st @ [(''assistant'', content, result)],
                   notified := notified st @ [(''assistant'', content)],
                   savedRecommendationIds := insert rid (savedRecommendationIds st) \<rparr>))"

text \<open>
  What the event loop runs, one stretch at a time: a new call of
  \<^verbatim>\<open>saveRecommendationResult\<close>, or the \<^verbatim>\<open>addMessage\<close> of the \<open>i\<close>-th suspended call settling.
  The two callers in \<^verbatim>\<open>Chat\<close>, the \<^verbatim>\<open>onComplete\<close> callback of the processing view and the
  polling interval, do not wait for each other.
\<close>

datatype save_event = Call nat RecommendationResponse | Settle nat save_outcome

fun save_step :: "ChatProps \<Rightarrow> save_event \<Rightarrow> ChatSession \<Rightarrow> ChatSession" where
  "save_step props (Call now result) st = save_call props now result st"
| "save_step props (Settle i outcome) st =
     (if i < length (awaiting st)
      then save_resume outcome (awaiting st ! i)
             (st\<lparr> awaiting := take i (awaiting st) @ drop (Suc i) (awaiting st) \<rparr>)
      else st)"

definition save_run :: "ChatProps \<Rightarrow> save_event list \<Rightarrow> ChatSession \<Rightarrow> ChatSession" where
  "save_run props events st = fold (save_step props) events st"

text \<open>
  One call of \<^verbatim>\<open>saveRecommendationResult\<close> with nothing running in between: the call, then
  its own \<^verbatim>\<open>addMessage\<close> settling, if the call got that far.
\<close>

definition saveRecommendationResult ::
  "ChatProps \<Rightarrow> nat \<Rightarrow> save_outcome \<Rightarrow> RecommendationResponse \<Rightarrow> ChatSession \<Rightarrow> ChatSession" where
  "saveRecommendationResult props now outcome result st =
     save_run props [Call now result, Settle (length (awaiting st)) outcome] st"

section \<open>Sample inputs\<close>


text \<open>The catalog entry of an operation object \<^verbatim>\<open>{}\<close>.\<close>

definition plain_operation :: "string \<Rightarrow> string \<Rightarrow> ApiOperation" where
  "plain_operation mth pth =
     \<lparr> op_id = mth @ '' '' @ pth, http_method = mth, path = pth,
       summary = JStr (mth @ '' '' @ pth), op_description = None, tags = [], operationId = None,
       parameters = [], requestBodySchema = JNull, requestBodyRequired = False,
       requestContentType = None, responses = JObj [] \<rparr>"

text \<open>Paths \<^verbatim>\<open>/b\<close> with GET and \<^verbatim>\<open>/a\<close> with POST and GET, in that order.\<close>

definition example_paths :: json where
  "example_paths =
     JObj [(''paths'',
            JObj [(''/b'', JObj [(''get'', JObj [])]),
                  (''/a'', JObj [(''post'', JObj []), (''get'', JObj [])])])]"

text \<open>A request body offered as \<^verbatim>\<open>text/plain\<close> only.\<close>

definition example_plain_body :: json where
  "example_plain_body =
     JObj [(''paths'',
            JObj [(''/upload'',
                   JObj [(''post'',
                          JObj [(''requestBody'',
                                 JObj [(''content'',
                                        JObj [(''text/plain'',
                                               JObj [(''schema'', JObj [(''type'', JStr ''string'')])])])])])])])]"

text \<open>A request body offered as \<^verbatim>\<open>text/plain\<close> and, after it, as \<^verbatim>\<open>application/json\<close>.\<close>

definition example_json_body :: json where
  "example_json_body =
     JObj [(''paths'',
            JObj [(''/pets'',
                   JObj [(''post'',
                          JObj [(''requestBody'',
                                 JObj [(''content'',
                                        JObj [(''text/plain'', JObj []),
                                              (''application/json'',
                                               JObj [(''schema'', JObj [(''$ref'', JStr ''#/Pet'')])])])])])])]),
           (''Pet'', JObj [(''type'', JStr ''object'')])]"


text \<open>Paths \<^verbatim>\<open>/users/me\<close> and \<^verbatim>\<open>/users/{id}\<close>, each with GET, in that order.\<close>

definition example_user_paths :: json where
  "example_user_paths =
     JObj [(''paths'',
            JObj [(''/users/me'', JObj [(''get'', JObj [])]),
                  (''/users/{id}'', JObj [(''get'', JObj [])])])]"


section \<open>The measure under which the resolver terminates\<close>

text \<open>
  The strings a value holds as members of its objects and elements of its arrays, at any
  depth. A reference that the resolver follows is one of these strings of the document or
  of the fragment it started from (what a pointer takes from a built-in holds none), and
  following it adds it to \<^verbatim>\<open>seen\<close>; so the strings not yet seen shrink at every reference
  followed, and between two references the fragment in hand shrinks.
\<close>

fun leaf :: "json \<Rightarrow> string set" where
  "leaf (JStr s) = {s}"
| "leaf _ = {}"

fun strings_of :: "json \<Rightarrow> string set" where
  "strings_of (JArr xs) = (\<Union>x \<in> set xs. leaf x \<union> strings_of x)"
| "strings_of (JObj kvs) = (\<Union>kv \<in> set kvs. leaf (snd kv) \<union> strings_of (snd kv))"
| "strings_of _ = {}"

fun weight :: "json \<Rightarrow> nat" where
  "weight (JArr xs) = Suc (sum_list (map (\<lambda>x. Suc (weight x)) xs))"
| "weight (JObj kvs) = Suc (sum_list (map (\<lambda>kv. Suc (weight (snd kv))) kvs))"
| "weight _ = 0"

definition strings_kvs :: "(string \<times> json) list \<Rightarrow> string set" where
  "strings_kvs kvs = (\<Union>kv \<in> set kvs. strings_of (snd kv))"

definition weight_kvs :: "(string \<times> json) list \<Rightarrow> nat" where
  "weight_kvs kvs = sum_list (map (\<lambda>kv. Suc (weight (snd kv))) kvs)"

fun resolve_measure ::
  "(host \<times> json \<times> json \<times> string set)
     + (host \<times> json list \<times> json \<times> string set \<times> (string \<times> json) list)
     + (host \<times> (string \<times> json) list \<times> json \<times> string set \<times> (string \<times> json) list) \<Rightarrow> nat \<times> nat" where
  "resolve_measure (Inl (h, schema, spec, seen)) =
     (card ((strings_of spec \<union> strings_of schema) - seen), weight schema)"
| "resolve_measure (Inr (Inl (h, parts, spec, seen, acc))) =
     (card ((strings_of spec \<union> strings_of (JArr parts)) - seen), weight (JArr parts))"
| "resolve_measure (Inr (Inr (h, kvs, spec, seen, props))) =
     (card ((strings_of spec \<union> strings_kvs kvs) - seen), Suc (weight_kvs kvs))"

section \<open>Termination of the resolver\<close>

lemma finite_leaf: "finite (leaf v)"
  by (cases v) auto

lemma finite_strings_of: "finite (strings_of v)"
  by (induction v rule: strings_of.induct) (auto simp: finite_leaf)

lemma finite_strings_kvs: "finite (strings_kvs kvs)"
  by (simp add: strings_kvs_def finite_strings_of)

lemma map_of_indexed_from_in: "map_of (indexed_from i xs) k = Some v \<Longrightarrow> v \<in> set xs"
  by (induction i xs rule: indexed_from.induct) (auto split: if_splits)

lemma weight_member: "x \<in> set xs \<Longrightarrow> weight x < sum_list (map (\<lambda>x. Suc (weight x)) xs)"
  by (induction xs) auto

lemma weight_kvs_member: "kv \<in> set kvs \<Longrightarrow> weight (snd kv) < weight_kvs kvs"
  unfolding weight_kvs_def by (induction kvs) auto

lemma js_get_strings: "js_get v k = Some c \<Longrightarrow> strings_of c \<subseteq> strings_of v"
proof (cases v)
  case (JObj kvs)
  assume "js_get v k = Some c"
  with JObj have "(k, c) \<in> set kvs" by (auto dest: map_of_SomeD)
  with JObj show ?thesis by force
next
  case (JArr xs)
  assume "js_get v k = Some c"
  with JArr show ?thesis by (auto split: if_splits dest!: map_of_indexed_from_in)
next
  case (JStr s)
  assume "js_get v k = Some c"
  with JStr show ?thesis by (auto split: if_splits dest!: map_of_indexed_from_in)
qed auto

lemma js_get_leaf: "js_get v k = Some c \<Longrightarrow> typeof_object v \<Longrightarrow> leaf c \<subseteq> strings_of v"
proof (cases v)
  case (JObj kvs)
  assume "js_get v k = Some c"
  with JObj have "(k, c) \<in> set kvs" by (auto dest: map_of_SomeD)
  with JObj show ?thesis by force
next
  case (JArr xs)
  assume "js_get v k = Some c"
  with JArr show ?thesis by (auto split: if_splits dest!: map_of_indexed_from_in)
qed auto

lemma strings_of_native: "strings_of (of_native m) = {}"
  by (cases m) auto

lemma js_index_strings: "js_index h v k = Inr (Some c) \<Longrightarrow> strings_of c \<subseteq> strings_of v"
  by (auto simp: js_index_def strings_of_native split: option.splits if_splits sum.splits
           dest: js_get_strings)

lemma walk_strings: "walk h v parts = Inr c \<Longrightarrow> strings_of c \<subseteq> strings_of v"
proof (induction parts arbitrary: v)
  case Nil
  then show ?case by simp
next
  case (Cons p ps)
  show ?case
  proof (cases "js_index h v p")
    case (Inl e)
    with Cons.prems show ?thesis by simp
  next
    case (Inr m)
    show ?thesis
    proof (cases m)
      case None
      with Inr Cons.prems show ?thesis by auto
    next
      case (Some c')
      with Inr Cons.prems have "walk h c' ps = Inr c" by simp
      from Cons.IH[OF this] js_index_strings[of h v p c'] Inr Some show ?thesis by auto
    qed
  qed
qed

lemma resolveRef_strings: "resolveRef h r spec = Inr c \<Longrightarrow> strings_of c \<subseteq> strings_of spec"
  by (auto simp: resolveRef_def split: if_splits dest: walk_strings)

lemma ref_of_strings: "ref_of schema = Some r \<Longrightarrow> typeof_object schema \<Longrightarrow> r \<in> strings_of schema"
proof -
  assume "ref_of schema = Some r" and t: "typeof_object schema"
  then have "js_get schema ''$ref'' = Some (JStr r)"
    by (auto simp: ref_of_def split: option.splits json.splits if_splits)
  from js_get_leaf[OF this t] show ?thesis by simp
qed

lemma allOf_of_strings: "allOf_of schema = Some parts \<Longrightarrow> strings_of (JArr parts) \<subseteq> strings_of schema"
proof -
  assume "allOf_of schema = Some parts"
  then have "js_get schema ''allOf'' = Some (JArr parts)"
    by (auto simp: allOf_of_def split: option.splits json.splits)
  from js_get_strings[OF this] show ?thesis .
qed

lemma js_get_weight:
  "js_get v k = Some c \<Longrightarrow> truthy v \<Longrightarrow> typeof_object v \<Longrightarrow> weight c < weight v"
proof (cases v)
  case (JObj kvs)
  assume "js_get v k = Some c"
  with JObj have "(k, c) \<in> set kvs" by (auto dest: map_of_SomeD)
  from weight_kvs_member[OF this] JObj show ?thesis by (simp add: weight_kvs_def)
next
  case (JArr xs)
  assume "js_get v k = Some c"
  with JArr show ?thesis
    by (auto split: if_splits dest!: map_of_indexed_from_in weight_member)
qed auto

lemma allOf_of_weight:
  "allOf_of schema = Some parts \<Longrightarrow> truthy schema \<Longrightarrow> typeof_object schema
     \<Longrightarrow> weight (JArr parts) < weight schema"
  by (auto simp: allOf_of_def split: option.splits json.splits dest!: js_get_weight)

lemma lex_le_step:
  "finite A \<Longrightarrow> B \<subseteq> A \<Longrightarrow> w' < w \<Longrightarrow> ((card B, w'), (card A, w)) \<in> less_than <*lex*> less_than"
  using card_mono[of A B] by (cases "card B = card A") auto

lemma lex_lt_step:
  "finite A \<Longrightarrow> B \<subset> A \<Longrightarrow> ((card B, w'), (card A, w)) \<in> less_than <*lex*> less_than"
  using psubset_card_mono[of A B] by auto

lemma seen_mono_aux:
  shows "resolveSchema_resolveAllOf_resolveProps_dom (Inl (h, schema, spec, seen))
      \<Longrightarrow> resolveSchema h schema spec seen = Inr (v, s) \<Longrightarrow> seen \<subseteq> s"
  and "resolveSchema_resolveAllOf_resolveProps_dom (Inr (Inl (h, parts, spec, seen, acc)))
      \<Longrightarrow> resolveAllOf h parts spec seen acc = Inr (v, s) \<Longrightarrow> seen \<subseteq> s"
  and "resolveSchema_resolveAllOf_resolveProps_dom (Inr (Inr (h, kvs, spec, seen, props))) \<Longrightarrow> True"
proof (induct arbitrary: v s and v s rule: resolveSchema_resolveAllOf_resolveProps.pinduct)
  case (1 h schema spec seen)
  note eq = resolveSchema.psimps[OF "1.hyps"(1)]
  show ?case
  proof (cases "\<not> truthy schema \<or> \<not> typeof_object schema")
    case True
    with "1.prems" show ?thesis by (simp add: eq)
  next
    case guard: False
    show ?thesis
    proof (cases "ref_of schema")
      case (Some r)
      show ?thesis
      proof (cases "r \<in> seen")
        case True
        with guard Some "1.prems" show ?thesis by (simp add: eq)
      next
        case False
        from "1.prems" guard Some False obtain target resolved where
          t: "resolveRef h r spec = Inr target"
          and r: "resolveSchema h target spec (insert r seen) = Inr (resolved, s)"
          by (auto simp add: eq split: sum.splits prod.splits)
        from "1.hyps"(5)[OF guard Some False t r] show ?thesis by blast
      qed
    next
      case None
      show ?thesis
      proof (cases "allOf_of schema")
        case (Some parts)
        from "1.prems" guard None Some have "resolveAllOf h parts spec seen [] = Inr (v, s)"
          by (simp add: eq)
        from "1.hyps"(4)[OF guard None Some this] show ?thesis .
      next
        case noAllOf: None
        show ?thesis
        proof (cases "map_of (assign [] (entries schema)) ''items''")
          case None
          with guard \<open>ref_of schema = None\<close> noAllOf "1.prems" show ?thesis
            by (auto simp add: eq split: option.splits if_splits sum.splits)
        next
          case (Some it)
          show ?thesis
          proof (cases "truthy it")
            case True
            from "1.prems" guard \<open>ref_of schema = None\<close> noAllOf Some True obtain r where
              "resolveSchema h it spec seen = Inr (r, s)"
              by (auto simp add: eq split: option.splits if_splits sum.splits prod.splits)
            from "1.hyps"(2)[OF guard \<open>ref_of schema = None\<close> noAllOf refl Some True this]
            show ?thesis .
          next
            case False
            with guard \<open>ref_of schema = None\<close> noAllOf Some "1.prems" show ?thesis
              by (auto simp add: eq split: option.splits if_splits sum.splits)
          qed
        qed
      qed
    qed
  qed
next
  case (2 h spec seen acc)
  then show ?case by (simp add: resolveAllOf.psimps)
next
  case (3 h part parts spec seen acc)
  from "3.prems" obtain r s1 where rs: "resolveSchema h part spec seen = Inr (r, s1)"
    and rest: "resolveAllOf h parts spec s1 (assign (assign [] acc) (spread_entries r)) = Inr (v, s)"
    by (auto simp add: resolveAllOf.psimps(2)[OF "3.hyps"(1)] split: sum.splits prod.splits)
  from "3.hyps"(2)[OF rs] have a: "seen \<subseteq> s1" .
  from "3.hyps"(3)[OF rs refl rest] have b: "s1 \<subseteq> s" .
  from a b show ?case by blast
qed simp_all

lemma measure_step:
  assumes "S' \<subseteq> S" "finite S" "seen \<subseteq> seen'" "w' < w"
  shows "((card (strings_of spec \<union> S' - seen'), w'), (card (strings_of spec \<union> S - seen), w))
           \<in> less_than <*lex*> less_than"
proof (rule lex_le_step)
  show "finite (strings_of spec \<union> S - seen)" using assms(2) by (simp add: finite_strings_of)
  show "strings_of spec \<union> S' - seen' \<subseteq> strings_of spec \<union> S - seen" using assms(1,3) by blast
  show "w' < w" by (rule assms(4))
qed

lemma map_of_assign:
  "map_of (assign acc src) k = Some c \<Longrightarrow> (k, c) \<in> set src \<or> map_of acc k = Some c"
  unfolding assign_def
proof (induction src arbitrary: acc)
  case Nil
  then show ?case by simp
next
  case (Cons p src)
  obtain k' v' where p: "p = (k', v')" by (cases p)
  from Cons.prems p have "map_of (fold (\<lambda>(k, v). AList.update k v) src (AList.update k' v' acc)) k = Some c"
    by simp
  from Cons.IH[OF this] p show ?case
    by (auto simp: update_conv' split: if_splits)
qed

lemma indexed_from_member: "(k, c) \<in> set (indexed_from i xs) \<Longrightarrow> c \<in> set xs"
  by (induction i xs rule: indexed_from.induct) auto

lemma entries_member_strings: "(k, c) \<in> set (entries v) \<Longrightarrow> strings_of c \<subseteq> strings_of v"
  by (cases v) (force dest!: indexed_from_member)+

lemma entries_member_weight:
  "(k, c) \<in> set (entries v) \<Longrightarrow> typeof_object v \<Longrightarrow> weight c < weight v"
proof (cases v)
  case (JObj kvs)
  assume "(k, c) \<in> set (entries v)"
  with JObj weight_kvs_member[of "(k, c)" kvs] show ?thesis by (simp add: weight_kvs_def)
next
  case (JArr xs)
  assume "(k, c) \<in> set (entries v)"
  with JArr show ?thesis by (auto dest!: indexed_from_member weight_member)
qed auto

lemma strings_kvs_entries: "strings_kvs (entries v) \<subseteq> strings_of v"
  unfolding strings_kvs_def using entries_member_strings by fastforce

lemma weight_kvs_indexed: "weight_kvs (indexed_from i xs) = sum_list (map (\<lambda>x. Suc (weight x)) xs)"
  unfolding weight_kvs_def by (induction i xs rule: indexed_from.induct) auto

lemma weight_kvs_entries: "typeof_object v \<Longrightarrow> weight_kvs (entries v) \<le> weight v"
  by (cases v) (simp_all add: weight_kvs_indexed, simp_all add: weight_kvs_def)

lemma entries_member_weight_Suc:
  "(k, c) \<in> set (entries v) \<Longrightarrow> typeof_object v \<Longrightarrow> Suc (weight c) < weight v"
proof (cases v)
  case (JObj kvs)
  assume "(k, c) \<in> set (entries v)"
  with JObj have "(k, c) \<in> set kvs" by simp
  then have "Suc (weight c) \<le> sum_list (map (\<lambda>kv. Suc (weight (snd kv))) kvs)"
    by (induction kvs) auto
  with JObj show ?thesis by simp
next
  case (JArr xs)
  assume "(k, c) \<in> set (entries v)"
  with JArr have "c \<in> set xs" by (auto dest!: indexed_from_member)
  then have "Suc (weight c) \<le> sum_list (map (\<lambda>x. Suc (weight x)) xs)"
    by (induction xs) auto
  with JArr show ?thesis by simp
qed auto

lemma resolve_all_dom: "All resolveSchema_resolveAllOf_resolveProps_dom"
proof (rule "resolveSchema_resolveAllOf_resolveProps.termination"
         [of "inv_image (less_than <*lex*> less_than) resolve_measure"],
       goal_cases)
  case 1
  show ?case by (rule wf_inv_image, rule wf_lex_prod, rule wf_less_than, rule wf_less_than)
next
  case (2 h schema spec seen x it)
  from 2(4,5) have "(''items'', it) \<in> set (entries schema)" by (auto dest: map_of_assign)
  with 2(1) have "strings_of it \<subseteq> strings_of schema" "weight it < weight schema"
    by (auto dest: entries_member_strings entries_member_weight)
  then show ?case unfolding in_inv_image resolve_measure.simps
    by (intro measure_step finite_strings_of subset_refl)
next
  case (3 h schema spec seen b x y ps)
  have mono: "seen \<subseteq> y"
  proof (cases "map_of (assign [] (entries schema)) ''items''")
    case None
    with 3(4,5) show ?thesis by (auto simp: Let_def)
  next
    case (Some it)
    show ?thesis
    proof (cases "truthy it")
      case True
      with 3(4,5) Some obtain r where r: "resolveSchema h it spec seen = Inr (r, y)"
        by (auto simp: Let_def split: sum.splits prod.splits)
      from 3(8)[OF refl Some True] r show ?thesis by (rule seen_mono_aux(1))
    next
      case False
      with 3(4,5) Some show ?thesis by (auto simp: Let_def)
    qed
  qed
  from 3(4,5) have "\<exists>r. x = assign [] (entries schema) \<or> x = AList.update ''items'' r (assign [] (entries schema))"
    by (auto simp: Let_def split: option.splits if_splits prod.splits sum.splits)
  with 3(6) have "map_of (assign [] (entries schema)) ''properties'' = Some ps"
    by (auto simp: update_conv')
  then have "(''properties'', ps) \<in> set (entries schema)" by (auto dest: map_of_assign)
  with 3(1) have a: "strings_of ps \<subseteq> strings_of schema" "Suc (weight ps) < weight schema"
    by (auto dest: entries_member_strings entries_member_weight_Suc)
  have c: "strings_kvs (entries ps) \<subseteq> strings_of schema" using a(1) strings_kvs_entries[of ps] by blast
  from 3(7) have "typeof_object ps" by simp
  from a(2) weight_kvs_entries[OF this] have d: "Suc (weight_kvs (entries ps)) < weight schema" by simp
  show ?case unfolding in_inv_image resolve_measure.simps
    by (rule measure_step[OF c finite_strings_of mono d])
next
  case (4 h schema spec seen parts)
  from 4(1) have g: "truthy schema" "typeof_object schema" by auto
  show ?case unfolding in_inv_image resolve_measure.simps
    by (rule measure_step[OF allOf_of_strings[OF 4(3)] finite_strings_of subset_refl
                            allOf_of_weight[OF 4(3) g]])
next
  case (5 h schema spec seen r target)
  from 5(1) have g: "typeof_object schema" by auto
  have "strings_of spec \<union> strings_of target - insert r seen
          \<subset> strings_of spec \<union> strings_of schema - seen"
    using resolveRef_strings[OF 5(4)] ref_of_strings[OF 5(2) g] 5(3) by blast
  then show ?case unfolding in_inv_image resolve_measure.simps
    by (intro lex_lt_step) (simp_all add: finite_strings_of)
next
  case (6 h part parts spec seen acc)
  have "strings_of part \<subseteq> strings_of (JArr (part # parts))" "weight part < weight (JArr (part # parts))"
    by auto
  then show ?case unfolding in_inv_image resolve_measure.simps
    by (intro measure_step finite_strings_of subset_refl)
next
  case (7 h part parts spec seen acc b x y)
  from 7(1,2) have "resolveSchema h part spec seen = Inr (x, y)" by simp
  from seen_mono_aux(1)[OF 7(3) this] have m: "seen \<subseteq> y" .
  have "strings_of (JArr parts) \<subseteq> strings_of (JArr (part # parts))"
       "weight (JArr parts) < weight (JArr (part # parts))"
    by auto
  then show ?case unfolding in_inv_image resolve_measure.simps
    by (intro measure_step finite_strings_of m)
next
  case (8 h k v kvs spec seen props)
  have "strings_of v \<subseteq> strings_kvs ((k, v) # kvs)" "weight v < Suc (weight_kvs ((k, v) # kvs))"
    by (auto simp: strings_kvs_def weight_kvs_def)
  then show ?case unfolding in_inv_image resolve_measure.simps
    by (intro measure_step finite_strings_kvs subset_refl)
next
  case (9 h k v kvs spec seen props b x y)
  have "strings_kvs kvs \<subseteq> strings_kvs ((k, v) # kvs)"
       "Suc (weight_kvs kvs) < Suc (weight_kvs ((k, v) # kvs))"
    by (auto simp: strings_kvs_def weight_kvs_def)
  then show ?case unfolding in_inv_image resolve_measure.simps
    by (intro measure_step finite_strings_kvs subset_refl)
qed

termination resolveSchema
  by (rule resolve_all_dom)

declare resolveSchema.simps [simp del]

lemma resolveSchema_seen_mono: "resolveSchema h schema spec seen = Inr (v, s) \<Longrightarrow> seen \<subseteq> s"
  using seen_mono_aux(1)[of h schema spec seen v s] resolve_all_dom by blast

section \<open>Objects under construction\<close>








lemma resolveProps_Inl:
  "resolveProps h kvs spec seen acc = Inl e \<Longrightarrow>
     \<exists>kv \<in> set kvs. resolveSchema h (snd kv) spec seen = Inl e"
proof (induction kvs arbitrary: acc)
  case Nil
  then show ?case by simp
next
  case (Cons kv kvs)
  obtain k v where kv: "kv = (k, v)" by (cases kv)
  show ?case
  proof (cases "resolveSchema h v spec seen")
    case (Inl e')
    with Cons.prems kv show ?thesis by auto
  next
    case (Inr rs)
    with Cons.prems kv obtain r s where "resolveProps h kvs spec seen (AList.update k r acc) = Inl e"
      by (cases rs) auto
    from Cons.IH[OF this] show ?thesis by auto
  qed
qed


lemma resolveAllOf_object:
  "resolveAllOf h parts spec seen acc = Inr (v, s) \<Longrightarrow> \<exists>members. v = JObj members"
  by (induction parts arbitrary: seen acc) (auto split: sum.splits prod.splits)

lemma resolveSchema_object:
  "truthy schema \<Longrightarrow> typeof_object schema \<Longrightarrow> resolveSchema h schema spec seen = Inr (v, s)
     \<Longrightarrow> \<exists>members. v = JObj members"
  using resolveAllOf_object[of h _ spec seen "[]" v s]
  by (subst (asm) resolveSchema.simps)
     (auto simp: Let_def split: option.splits prod.splits sum.splits if_splits)

lemma js_index_error: "js_index h v k = Inl e \<Longrightarrow> inherited h v k = Inl e"
  by (auto simp: js_index_def split: option.splits if_splits sum.splits)

lemma walk_error: "walk h v parts = Inl e \<Longrightarrow> \<exists>v' k. inherited h v' k = Inl e"
proof (induction parts arbitrary: v)
  case Nil
  then show ?case by simp
next
  case (Cons p ps)
  show ?case
  proof (cases "js_index h v p")
    case (Inl e')
    with Cons.prems have "e' = e" by simp
    with Inl js_index_error show ?thesis by blast
  next
    case (Inr m)
    with Cons.prems obtain c where "walk h c ps = Inl e" by (cases m) auto
    from Cons.IH[OF this] show ?thesis .
  qed
qed

lemma resolveRef_error: "resolveRef h r spec = Inl e \<Longrightarrow> \<exists>v k. inherited h v k = Inl e"
  by (auto simp: resolveRef_def split: if_splits dest: walk_error)

lemma resolveSchema_falsy:
  "\<not> truthy schema \<or> \<not> typeof_object schema \<Longrightarrow> resolveSchema h schema spec seen = Inr (schema, seen)"
  by (subst resolveSchema.simps) simp

lemma resolveSchema_seen_ref:
  assumes "truthy schema" "typeof_object schema" "ref_of schema = Some r" "r \<in> seen"
  shows "resolveSchema h schema spec seen = Inr (JObj [(''type'', JStr ''object'')], seen)"
  using assms by (subst resolveSchema.simps) simp

lemma resolveSchema_ref:
  assumes "truthy schema" "typeof_object schema" "ref_of schema = Some r" "r \<notin> seen"
  shows "resolveSchema h schema spec seen =
          (case resolveRef h r spec of
             Inl e \<Rightarrow> Inl e
           | Inr target \<Rightarrow>
               (case resolveSchema h target spec (insert r seen) of
                  Inl e \<Rightarrow> Inl e
                | Inr (resolved, seen1) \<Rightarrow>
                    Inr (JObj (assign (assign [] (spread_entries resolved))
                                 (filter (\<lambda>(k, v). k \<noteq> ''$ref'') (entries schema))), seen1)))"
  using assms by (subst resolveSchema.simps) simp

lemma resolveSchema_allOf:
  assumes "truthy schema" "typeof_object schema" "ref_of schema = None" "allOf_of schema = Some parts"
  shows "resolveSchema h schema spec seen = resolveAllOf h parts spec seen []"
  using assms by (subst resolveSchema.simps) simp

text \<open>The resolution of \<^verbatim>\<open>next.items\<close>, the step before the loop over the properties.\<close>

lemma resolveSchema_plain:
  assumes "truthy schema" "typeof_object schema" "ref_of schema = None" "allOf_of schema = None"
  shows "resolveSchema h schema spec seen =
     (case (case map_of (assign [] (entries schema)) ''items'' of
              None \<Rightarrow> Inr (assign [] (entries schema), seen)
            | Some it \<Rightarrow>
                if truthy it
                then (case resolveSchema h it spec seen of
                        Inl e \<Rightarrow> Inl e
                      | Inr (r, seen1) \<Rightarrow> Inr (AList.update ''items'' r (assign [] (entries schema)), seen1))
                else Inr (assign [] (entries schema), seen)) of
        Inl e \<Rightarrow> Inl e
      | Inr (next1, seen1) \<Rightarrow>
          (case map_of next1 ''properties'' of
             None \<Rightarrow> Inr (JObj next1, seen1)
           | Some ps \<Rightarrow>
               if truthy ps \<and> typeof_object ps
               then (case resolveProps h (entries ps) spec seen1 [] of
                       Inl e \<Rightarrow> Inl e
                     | Inr props \<Rightarrow>
                         Inr (JObj (AList.update ''properties'' (JObj props) next1), seen1))
               else Inr (JObj next1, seen1)))"
  using assms by (subst resolveSchema.simps) (simp add: Let_def)

lemma resolve_error_origin:
  shows "resolveSchema h schema spec seen = Inl e \<Longrightarrow> \<exists>v k. inherited h v k = Inl e"
    and "resolveAllOf h parts spec seen acc = Inl e \<Longrightarrow> \<exists>v k. inherited h v k = Inl e"
    and "resolveProps h kvs spec seen props = Inl e \<Longrightarrow> \<exists>v k. inherited h v k = Inl e"
proof (induction h schema spec seen and h parts spec seen acc and h kvs spec seen props
       rule: resolveSchema_resolveAllOf_resolveProps.induct)
  case (1 h schema spec seen)
  show ?case
  proof (cases "\<not> truthy schema \<or> \<not> typeof_object schema")
    case True
    with "1.prems" show ?thesis by (simp add: resolveSchema_falsy)
  next
    case guard: False
    then have g: "truthy schema" "typeof_object schema" by auto
    show ?thesis
    proof (cases "ref_of schema")
      case (Some r)
      show ?thesis
      proof (cases "r \<in> seen")
        case True
        with g Some "1.prems" show ?thesis by (simp add: resolveSchema_seen_ref)
      next
        case False
        show ?thesis
        proof (cases "resolveRef h r spec")
          case (Inl e')
          with "1.prems" have "e' = e" by (simp add: resolveSchema_ref[OF g Some False])
          with Inl resolveRef_error show ?thesis by blast
        next
          case (Inr target)
          with "1.prems" have "resolveSchema h target spec (insert r seen) = Inl e"
            by (auto simp add: resolveSchema_ref[OF g Some False] split: sum.splits prod.splits)
          from "1.IH"(4)[OF guard Some False Inr this] show ?thesis .
        qed
      qed
    next
      case None
      show ?thesis
      proof (cases "allOf_of schema")
        case (Some parts)
        from "1.prems" have "resolveAllOf h parts spec seen [] = Inl e"
          by (simp add: resolveSchema_allOf[OF g None Some])
        from "1.IH"(3)[OF guard None Some this] show ?thesis .
      next
        case noAllOf: None
        note eq = resolveSchema_plain[OF g None noAllOf, of h spec seen]
        let ?step = "(let next0 = assign [] (entries schema)
                      in case map_of next0 ''items'' of
                           None \<Rightarrow> Inr (next0, seen)
                         | Some it \<Rightarrow>
                             if truthy it
                             then (case resolveSchema h it spec seen of
                                     Inl e \<Rightarrow> Inl e
                                   | Inr (r, seen1) \<Rightarrow> Inr (AList.update ''items'' r next0, seen1))
                             else Inr (next0, seen))"
        show ?thesis
        proof (cases ?step)
          case (Inl e')
          then obtain it where it: "map_of (assign [] (entries schema)) ''items'' = Some it"
            "truthy it" "resolveSchema h it spec seen = Inl e'"
            by (auto simp: Let_def split: option.splits if_splits sum.splits prod.splits)
          from Inl "1.prems" have "e' = e" by (simp add: eq Let_def)
          with "1.IH"(1)[OF guard None noAllOf refl it(1,2)] it(3) show ?thesis by simp
        next
          case (Inr b)
          obtain next1 seen1 where b: "b = (next1, seen1)" by (cases b)
          from Inr b "1.prems" obtain ps where ps: "map_of next1 ''properties'' = Some ps"
            "truthy ps \<and> typeof_object ps" "resolveProps h (entries ps) spec seen1 [] = Inl e"
            by (auto simp: eq Let_def split: option.splits if_splits sum.splits)
          from "1.IH"(2)[OF guard None noAllOf Inr b[symmetric] ps] show ?thesis .
        qed
      qed
    qed
  qed
next
  case (2 h spec seen acc)
  then show ?case by simp
next
  case (3 h part parts spec seen acc)
  show ?case
  proof (cases "resolveSchema h part spec seen")
    case (Inl e')
    with "3.prems" have "e' = e" by simp
    with Inl "3.IH"(1) show ?thesis by simp
  next
    case (Inr b)
    obtain r s1 where b: "b = (r, s1)" by (cases b)
    from "3.prems" Inr b have "resolveAllOf h parts spec s1 (assign (assign [] acc) (spread_entries r)) = Inl e"
      by simp
    from "3.IH"(2)[OF Inr b[symmetric] this] show ?thesis .
  qed
next
  case (4 h spec seen props)
  then show ?case by simp
next
  case (5 h k v kvs spec seen props)
  show ?case
  proof (cases "resolveSchema h v spec seen")
    case (Inl e')
    with "5.prems" have "e' = e" by simp
    with Inl "5.IH"(1) show ?thesis by simp
  next
    case (Inr b)
    obtain r s1 where b: "b = (r, s1)" by (cases b)
    from "5.prems" Inr b have "resolveProps h kvs spec seen (AList.update k r props) = Inl e"
      by simp
    from "5.IH"(2)[OF Inr b[symmetric] this] show ?thesis .
  qed
qed

section \<open>Claims about the resolver\<close>

lemma split_on_part:
  "c \<notin> set part \<Longrightarrow> split_on c part = [part]"
  "c \<notin> set part \<Longrightarrow> split_on c (part @ c # rest) = part # split_on c rest"
  by (induction part) auto

lemma resolveRef_step:
  assumes "CHR ''/'' \<notin> set part"
  shows "resolveRef h (''#/'' @ part) spec
           = (case js_index h spec part of
                Inl e \<Rightarrow> Inl e | Inr None \<Rightarrow> Inr JNull | Inr (Some v) \<Rightarrow> Inr v)"
    and "resolveRef h (''#/'' @ part @ ''/'' @ rest) spec
           = (case js_index h spec part of
                Inl e \<Rightarrow> Inl e | Inr None \<Rightarrow> Inr JNull
              | Inr (Some v) \<Rightarrow> resolveRef h (''#/'' @ rest) v)"
  using split_on_part[OF assms]
  by (simp_all add: resolveRef_def split: sum.splits option.splits)

text \<open>
  C7, as the specification states it, fails. The document \<^verbatim>\<open>{}\<close> has no member
  \<^verbatim>\<open>constructor\<close>, yet the pointer \<^verbatim>\<open>#/constructor/name\<close> resolves to the string
  \<^verbatim>\<open>Object\<close>: the first step finds the function every object inherits, the second its name.
  The same holds below \<^verbatim>\<open>components.schemas\<close> of a document that defines no schema.
\<close>

theorem resolveRef_inherited_counterexample:
  "js_get (JObj []) ''constructor'' = None
   \<and> resolveRef sample_host ''#/constructor/name'' (JObj []) = Inr (JStr ''Object'')
   \<and> resolveRef sample_host ''#/components/schemas/constructor/name''
        (JObj [(''components'', JObj [(''schemas'', JObj [])])]) = Inr (JStr ''Object'')"
  by (simp add: resolveRef_def js_index_def sample_host_def sample_inherited_def)

text \<open>
  C7, amended. A pointer that does not start with \<^verbatim>\<open>#/\<close> resolves to \<^verbatim>\<open>null\<close>. One that does
  is cut after the \<^verbatim>\<open>#/\<close> at every \<^verbatim>\<open>/\<close> and its parts are looked up in turn, each in the
  value the part before it gave: first among the own properties of that value, then, unless
  the value is \<^verbatim>\<open>null\<close>, among the members it inherits from the platform. The pointer
  resolves to the value its last part gives; to \<^verbatim>\<open>null\<close> at the first part found in neither
  place; and when an inherited accessor throws, the resolution throws what it threw. So a
  step missing from the document gives \<^verbatim>\<open>null\<close> only when the value reached inherits no
  member by that name.
\<close>

theorem resolveRef_pointer:
  "(take 2 ref \<noteq> ''#/'' \<longrightarrow> resolveRef h ref spec = Inr JNull)
   \<and> (CHR ''/'' \<notin> set part \<longrightarrow>
        resolveRef h (''#/'' @ part) spec
          = (case js_get spec part of
               Some c \<Rightarrow> Inr c
             | None \<Rightarrow>
                 if spec = JNull then Inr JNull
                 else (case inherited h spec part of
                         Inl e \<Rightarrow> Inl e
                       | Inr None \<Rightarrow> Inr JNull
                       | Inr (Some m) \<Rightarrow> Inr (of_native m)))
      \<and> resolveRef h (''#/'' @ part @ ''/'' @ rest) spec
          = (case js_get spec part of
               Some c \<Rightarrow> resolveRef h (''#/'' @ rest) c
             | None \<Rightarrow>
                 if spec = JNull then Inr JNull
                 else (case inherited h spec part of
                         Inl e \<Rightarrow> Inl e
                       | Inr None \<Rightarrow> Inr JNull
                       | Inr (Some m) \<Rightarrow> resolveRef h (''#/'' @ rest) (of_native m))))
   \<and> (CHR ''/'' \<notin> set part \<and> js_get spec part = None
        \<and> (spec = JNull \<or> inherited h spec part = Inr None)
        \<longrightarrow> resolveRef h (''#/'' @ part) spec = Inr JNull
          \<and> resolveRef h (''#/'' @ part @ ''/'' @ rest) spec = Inr JNull)"
proof -
  have 1: "take 2 ref \<noteq> ''#/'' \<Longrightarrow> resolveRef h ref spec = Inr JNull"
    by (simp add: resolveRef_def)
  have 2: "resolveRef h (''#/'' @ part) spec
          = (case js_get spec part of
               Some c \<Rightarrow> Inr c
             | None \<Rightarrow>
                 if spec = JNull then Inr JNull
                 else (case inherited h spec part of
                         Inl e \<Rightarrow> Inl e
                       | Inr None \<Rightarrow> Inr JNull
                       | Inr (Some m) \<Rightarrow> Inr (of_native m)))"
    if "CHR ''/'' \<notin> set part"
    unfolding resolveRef_step(1)[OF that]
    by (simp add: js_index_def split: option.splits sum.splits)
  have 3: "resolveRef h (''#/'' @ part @ ''/'' @ rest) spec
          = (case js_get spec part of
               Some c \<Rightarrow> resolveRef h (''#/'' @ rest) c
             | None \<Rightarrow>
                 if spec = JNull then Inr JNull
                 else (case inherited h spec part of
                         Inl e \<Rightarrow> Inl e
                       | Inr None \<Rightarrow> Inr JNull
                       | Inr (Some m) \<Rightarrow> resolveRef h (''#/'' @ rest) (of_native m)))"
    if "CHR ''/'' \<notin> set part"
    unfolding resolveRef_step(2)[OF that]
    by (simp add: js_index_def split: option.splits sum.splits)
  have 4: "resolveRef h (''#/'' @ part) spec = Inr JNull
          \<and> resolveRef h (''#/'' @ part @ ''/'' @ rest) spec = Inr JNull"
    if "CHR ''/'' \<notin> set part" "js_get spec part = None" "spec = JNull \<or> inherited h spec part = Inr None"
    using 2[OF that(1)] 3[OF that(1)] that(2,3) by auto
  from 1 2 3 4 show ?thesis by blast
qed

theorem resolveRef_pointer_witness:
  "take 2 ''components/schemas/Pet'' \<noteq> ''#/''
   \<and> resolveRef sample_host ''components/schemas/Pet''
        (JObj [(''components'', JObj [(''schemas'',
           JObj [(''Pet'', JObj [(''type'', JStr ''string'')])])])]) = Inr JNull
   \<and> CHR ''/'' \<notin> set ''components''
   \<and> js_get (JObj [(''components'', JObj [(''schemas'',
           JObj [(''Pet'', JObj [(''type'', JStr ''string'')])])])]) ''components''
       = Some (JObj [(''schemas'', JObj [(''Pet'', JObj [(''type'', JStr ''string'')])])])
   \<and> resolveRef sample_host ''#/components''
        (JObj [(''components'', JObj [(''schemas'',
           JObj [(''Pet'', JObj [(''type'', JStr ''string'')])])])])
       = Inr (JObj [(''schemas'', JObj [(''Pet'', JObj [(''type'', JStr ''string'')])])])
   \<and> resolveRef sample_host ''#/components/schemas/Pet''
        (JObj [(''components'', JObj [(''schemas'',
           JObj [(''Pet'', JObj [(''type'', JStr ''string'')])])])])
       = resolveRef sample_host ''#/schemas/Pet''
           (JObj [(''schemas'', JObj [(''Pet'', JObj [(''type'', JStr ''string'')])])])
   \<and> resolveRef sample_host ''#/components/schemas/Pet''
        (JObj [(''components'', JObj [(''schemas'',
           JObj [(''Pet'', JObj [(''type'', JStr ''string'')])])])])
       = Inr (JObj [(''type'', JStr ''string'')])
   \<and> CHR ''/'' \<notin> set ''missing''
   \<and> js_get (JObj [(''schemas'', JObj [])]) ''missing'' = None
   \<and> inherited sample_host (JObj [(''schemas'', JObj [])]) ''missing'' = Inr None
   \<and> resolveRef sample_host ''#/missing'' (JObj [(''schemas'', JObj [])]) = Inr JNull
   \<and> resolveRef sample_host ''#/missing/Pet'' (JObj [(''schemas'', JObj [])]) = Inr JNull
   \<and> CHR ''/'' \<notin> set ''constructor''
   \<and> js_get (JObj []) ''constructor'' = None
   \<and> inherited sample_host (JObj []) ''constructor'' = Inr (Some (NFunction ''Object''))
   \<and> resolveRef sample_host ''#/constructor'' (JObj []) = Inr (JFunction ''Object'')
   \<and> resolveRef sample_host ''#/constructor/name'' (JObj []) = Inr (JStr ''Object'')
   \<and> resolveRef sample_host ''#/constructor/caller'' (JObj []) = Inl TypeError"
  using
    resolveRef_pointer[where ref = "''components/schemas/Pet''" and h = sample_host
      and spec = "JObj [(''components'', JObj [(''schemas'',
           JObj [(''Pet'', JObj [(''type'', JStr ''string'')])])])]"
      and part = "''components''" and rest = "''schemas/Pet''"]
    resolveRef_pointer[where h = sample_host and spec = "JObj [(''schemas'', JObj [])]"
      and part = "''missing''" and rest = "''Pet''"]
    resolveRef_pointer[where h = sample_host and spec = "JObj []"
      and part = "''constructor''" and rest = "''name''"]
    resolveRef_pointer[where h = sample_host and spec = "JObj []"
      and part = "''constructor''" and rest = "''caller''"]
  by (simp add: resolveRef_def js_index_def sample_host_def sample_inherited_def)

text \<open>
  C1, as the specification states it, fails in its last part: the result is not always an
  object schema. A pointer into the built-ins can run into an accessor that throws, and
  then \<^verbatim>\<open>resolveSchema\<close> throws. With \<^verbatim>\<open>A\<close> defined as \<^verbatim>\<open>{$ref: '#/A'}\<close>, a fragment whose
  property \<^verbatim>\<open>a\<close> refers to \<^verbatim>\<open>A\<close> and whose property \<^verbatim>\<open>b\<close> holds the pointer
  \<^verbatim>\<open>#/constructor/caller\<close> ends in a \<^verbatim>\<open>TypeError\<close>: the cycle in \<^verbatim>\<open>a\<close> is cut short, the
  pointer in \<^verbatim>\<open>b\<close> reads \<^verbatim>\<open>caller\<close> of the function \<^verbatim>\<open>Object\<close>.
\<close>

theorem resolveSchema_throws_counterexample:
  "resolveSchema sample_host (JObj [(''$ref'', JStr ''#/constructor/caller'')]) (JObj []) {}
     = Inl TypeError
   \<and> resolveSchema sample_host
        (JObj [(''properties'', JObj [(''a'', JObj [(''$ref'', JStr ''#/A'')]),
                                      (''b'', JObj [(''$ref'', JStr ''#/constructor/caller'')])])])
        (JObj [(''A'', JObj [(''$ref'', JStr ''#/A'')])]) {}
     = Inl TypeError"
  by (simp add: resolveSchema.simps ref_of_def allOf_of_def resolveRef_def js_index_def
        assign_def spread_entries_def sample_host_def sample_inherited_def)

text \<open>
  C1, amended. The resolver terminates on every fragment, document and visited set: each
  argument lies in the domain of the recursion, the part of the call graph where no chain of
  calls goes on for ever. A fragment whose \<^verbatim>\<open>$ref\<close> is already in the visited set resolves
  to \<^verbatim>\<open>{type: 'object'}\<close> without a further call. And a fragment that is an object either
  resolves to an object, never to \<^verbatim>\<open>null\<close>, or the call throws what an accessor of a
  built-in threw when a pointer read it.
\<close>

theorem resolveSchema_cycle_guard:
  "resolveSchema_resolveAllOf_resolveProps_dom (Inl (h, schema, spec, seen))
   \<and> (truthy schema \<and> typeof_object schema \<and> ref_of schema = Some r \<and> r \<in> seen
        \<longrightarrow> resolveSchema h schema spec seen = Inr (JObj [(''type'', JStr ''object'')], seen))
   \<and> (truthy schema \<and> typeof_object schema
        \<longrightarrow> (\<exists>members seen'. resolveSchema h schema spec seen = Inr (JObj members, seen'))
          \<or> (\<exists>v k e. inherited h v k = Inl e \<and> resolveSchema h schema spec seen = Inl e))"
proof -
  have 3: "(\<exists>members seen'. resolveSchema h schema spec seen = Inr (JObj members, seen'))
          \<or> (\<exists>v k e. inherited h v k = Inl e \<and> resolveSchema h schema spec seen = Inl e)"
    if "truthy schema" "typeof_object schema"
  proof (cases "resolveSchema h schema spec seen")
    case (Inl e)
    with resolve_error_origin(1)[OF Inl] show ?thesis by blast
  next
    case (Inr b)
    obtain v s where "b = (v, s)" by (cases b)
    with Inr resolveSchema_object[OF that, of h spec seen v s] show ?thesis by auto
  qed
  from 3 resolve_all_dom resolveSchema_seen_ref[of schema r seen h spec] show ?thesis by blast
qed

theorem resolveSchema_cycle_guard_witness:
  "truthy (JObj [(''$ref'', JStr ''#/A'')]) \<and> typeof_object (JObj [(''$ref'', JStr ''#/A'')])
   \<and> ref_of (JObj [(''$ref'', JStr ''#/A'')]) = Some ''#/A''
   \<and> ''#/A'' \<in> {''#/B'', ''#/A''}
   \<and> resolveSchema_resolveAllOf_resolveProps_dom
        (Inl (sample_host, JObj [(''$ref'', JStr ''#/A'')],
              JObj [(''A'', JObj [(''$ref'', JStr ''#/B'')]), (''B'', JObj [(''$ref'', JStr ''#/A'')])],
              {}))
   \<and> resolveSchema sample_host (JObj [(''$ref'', JStr ''#/A'')])
        (JObj [(''A'', JObj [(''$ref'', JStr ''#/B'')]), (''B'', JObj [(''$ref'', JStr ''#/A'')])])
        {''#/B'', ''#/A''}
       = Inr (JObj [(''type'', JStr ''object'')], {''#/B'', ''#/A''})
   \<and> resolveSchema sample_host (JObj [(''$ref'', JStr ''#/A'')])
        (JObj [(''A'', JObj [(''$ref'', JStr ''#/B'')]), (''B'', JObj [(''$ref'', JStr ''#/A'')])])
        {}
       = Inr (JObj [(''type'', JStr ''object'')], {''#/B'', ''#/A''})"
  using
    resolveSchema_cycle_guard[of sample_host "JObj [(''$ref'', JStr ''#/A'')]"
      "JObj [(''A'', JObj [(''$ref'', JStr ''#/B'')]), (''B'', JObj [(''$ref'', JStr ''#/A'')])]"
      "{}" "''#/A''"]
    resolveSchema_cycle_guard[of sample_host "JObj [(''$ref'', JStr ''#/A'')]"
      "JObj [(''A'', JObj [(''$ref'', JStr ''#/B'')]), (''B'', JObj [(''$ref'', JStr ''#/A'')])]"
      "{''#/B'', ''#/A''}" "''#/A''"]
  by (simp add: resolveSchema.simps ref_of_def allOf_of_def resolveRef_def js_index_def
        assign_def spread_entries_def)









text \<open>
  The \<^verbatim>\<open>reduce\<close> over \<^verbatim>\<open>allOf\<close> merges left to right, a later member's key replacing an
  earlier one's: the specification's example.
\<close>

lemma resolveSchema_allOf_example:
  "resolveSchema h
         (JObj [(''allOf'', JArr [JObj [(''a'', JNum 1)], JObj [(''a'', JNum 2), (''b'', JNum 3)]])])
         spec {}
     = Inr (JObj [(''a'', JNum 2), (''b'', JNum 3)], {})"
  by (simp add: resolveSchema.simps ref_of_def allOf_of_def assign_def spread_entries_def)

text \<open>
  C3. The members of an \<^verbatim>\<open>allOf\<close> are not resolved independently of each other: the
  \<^verbatim>\<open>reduce\<close> hands every member the one visited set, where the loop over \<^verbatim>\<open>properties\<close>
  hands each value a copy. A member that holds a \<^verbatim>\<open>$ref\<close> an earlier member has followed
  is cut short to \<^verbatim>\<open>{type: 'object'}\<close>. With \<^verbatim>\<open>Pet\<close> defined as \<^verbatim>\<open>{type: 'string'}\<close>, the
  fragment \<^verbatim>\<open>{$ref: '#/Pet'}\<close> alone resolves to \<^verbatim>\<open>{type: 'string'}\<close>, and an \<^verbatim>\<open>allOf\<close> of
  two such members resolves to \<^verbatim>\<open>{type: 'object'}\<close>.
\<close>

theorem resolveSchema_allOf_members_share_seen:
  "resolveSchema0 h (JObj [(''$ref'', JStr ''#/Pet'')])
         (JObj [(''Pet'', JObj [(''type'', JStr ''string'')])])
     = Inr (JObj [(''type'', JStr ''string'')])
   \<and> resolveSchema0 h
         (JObj [(''allOf'', JArr [JObj [(''$ref'', JStr ''#/Pet'')], JObj [(''$ref'', JStr ''#/Pet'')]])])
         (JObj [(''Pet'', JObj [(''type'', JStr ''string'')])])
     = Inr (JObj [(''type'', JStr ''object'')])"
  by (simp add: resolveSchema0_def resolveSchema.simps ref_of_def allOf_of_def resolveRef_def
        js_index_def assign_def spread_entries_def)

section \<open>Claims about the composite input schema\<close>









section \<open>Claims about the operation catalog\<close>

lemma set_insert_by: "set (insert_by cmp x xs) = insert x (set xs)"
  by (induction xs) auto

lemma set_sort_by: "set (sort_by cmp xs) = set xs"
  by (induction xs) (simp_all add: sort_by_def set_insert_by)

lemma mset_insert_by: "mset (insert_by cmp x xs) = add_mset x (mset xs)"
  by (induction xs) auto

lemma mset_sort_by: "mset (sort_by cmp xs) = mset xs"
  by (induction xs) (simp_all add: sort_by_def mset_insert_by)

lemma sorted_insert_by:
  assumes total: "\<And>a b. cmp a b \<le> 0 \<or> cmp b a \<le> 0"
    and trans: "\<And>a b c. cmp a b \<le> 0 \<Longrightarrow> cmp b c \<le> 0 \<Longrightarrow> cmp a c \<le> 0"
    and "sorted_wrt (\<lambda>a b. cmp a b \<le> 0) xs"
  shows "sorted_wrt (\<lambda>a b. cmp a b \<le> 0) (insert_by cmp x xs)"
  using assms(3)
proof (induction xs)
  case Nil
  show ?case by simp
next
  case (Cons y ys)
  show ?case
  proof (cases "cmp x y \<le> 0")
    case True
    with Cons.prems trans[of x y] show ?thesis by auto
  next
    case False
    with total[of x y] have "cmp y x \<le> 0" by simp
    with False Cons show ?thesis by (auto simp: set_insert_by)
  qed
qed

lemma sorted_sort_by:
  assumes "\<And>a b. cmp a b \<le> 0 \<or> cmp b a \<le> 0"
    and "\<And>a b c. cmp a b \<le> 0 \<Longrightarrow> cmp b c \<le> 0 \<Longrightarrow> cmp a c \<le> 0"
  shows "sorted_wrt (\<lambda>a b. cmp a b \<le> 0) (sort_by cmp xs)"
proof (induction xs)
  case Nil
  show ?case by (simp add: sort_by_def)
next
  case (Cons x xs)
  from sorted_insert_by[of cmp "sort_by cmp xs" x, OF assms Cons]
  show ?case by (simp add: sort_by_def)
qed

lemma consistent_sgn: "consistent_compare cmp \<Longrightarrow> sgn (cmp b a) = - sgn (cmp a b)"
  unfolding consistent_compare_def by blast

lemma consistent_zero: "consistent_compare cmp \<Longrightarrow> cmp a b = 0 \<Longrightarrow> cmp b a = 0"
  using consistent_sgn[of cmp b a] by (auto simp: sgn_if split: if_splits)

lemma consistent_pos: "consistent_compare cmp \<Longrightarrow> 0 < cmp a b \<longleftrightarrow> cmp b a < 0"
  using consistent_sgn[of cmp b a] by (auto simp: sgn_if split: if_splits)

lemma consistent_trans:
  "consistent_compare cmp \<Longrightarrow> cmp a b \<le> 0 \<Longrightarrow> cmp b c \<le> 0 \<Longrightarrow> cmp a c \<le> 0"
  unfolding consistent_compare_def by blast

lemma compareOps_le:
  "compareOps h a b \<le> 0 \<longleftrightarrow>
     localeCompare h (path a) (path b) < 0
     \<or> (localeCompare h (path a) (path b) = 0
         \<and> localeCompare h (http_method a) (http_method b) \<le> 0)"
  by (auto simp: compareOps_def)

lemma compareOps_total:
  assumes "consistent_compare (localeCompare h)"
  shows "compareOps h a b \<le> 0 \<or> compareOps h b a \<le> 0"
proof -
  note z = consistent_zero[OF assms] and p = consistent_pos[OF assms]
  show ?thesis
    unfolding compareOps_le
    using z[of "path a" "path b"] p[of "path a" "path b"]
          p[of "http_method a" "http_method b"]
    by (cases "localeCompare h (path a) (path b)" "0::int" rule: linorder_cases) auto
qed

lemma compareOps_trans:
  assumes c: "consistent_compare (localeCompare h)"
    and ab: "compareOps h a b \<le> 0" and bc: "compareOps h b c \<le> 0"
  shows "compareOps h a c \<le> 0"
proof -
  let ?p = "\<lambda>x y. localeCompare h (path x) (path y)"
  let ?m = "\<lambda>x y. localeCompare h (http_method x) (http_method y)"
  note t = consistent_trans[OF c] and z = consistent_zero[OF c] and p = consistent_pos[OF c]
  from ab have ab': "?p a b < 0 \<or> (?p a b = 0 \<and> ?m a b \<le> 0)" by (simp add: compareOps_le)
  from bc have bc': "?p b c < 0 \<or> (?p b c = 0 \<and> ?m b c \<le> 0)" by (simp add: compareOps_le)
  from ab' bc' have le: "?p a c \<le> 0" using t[of "path a" "path b" "path c"] by auto
  show ?thesis
  proof (cases "?p a c = 0")
    case False
    with le show ?thesis by (simp add: compareOps_le)
  next
    case True
    then have ca: "?p c a = 0" by (rule z)
    have "?p a b = 0"
    proof (rule ccontr)
      assume "?p a b \<noteq> 0"
      with ab' have "?p a b < 0" by auto
      then have "0 < ?p b a" by (simp add: p)
      moreover from bc' ca have "?p b a \<le> 0" using t[of "path b" "path c" "path a"] by auto
      ultimately show False by simp
    qed
    moreover have "?p b c = 0"
    proof (rule ccontr)
      assume "?p b c \<noteq> 0"
      with bc' have "?p b c < 0" by auto
      then have "0 < ?p c b" by (simp add: p)
      moreover from ab' ca have "?p c b \<le> 0" using t[of "path c" "path a" "path b"] by auto
      ultimately show False by simp
    qed
    ultimately have "?m a b \<le> 0" "?m b c \<le> 0" using ab' bc' by auto
    then have "?m a c \<le> 0" by (rule t)
    with True show ?thesis by (simp add: compareOps_le)
  qed
qed

lemma codeUnitCompare_consistent: "consistent_compare codeUnitCompare"
  unfolding consistent_compare_def codeUnitCompare_def by auto

lemma methodLoop_all:
  assumes "methodLoop h spec pth pathItem plp ms out = Inr out'"
    and "\<forall>x \<in> set out. P x"
    and "\<And>mth opj x. mth \<in> set ms \<Longrightarrow> js_get pathItem mth = Some opj
            \<Longrightarrow> buildOperation h spec pth plp mth opj = Inr x \<Longrightarrow> P x"
  shows "\<forall>x \<in> set out'. P x"
  using assms
proof (induction ms arbitrary: out)
  case Nil
  then show ?case by simp
next
  case (Cons mth ms)
  have step: "P x" if "mth' \<in> set ms" "js_get pathItem mth' = Some opj"
    "buildOperation h spec pth plp mth' opj = Inr x" for mth' opj x
    using Cons.prems(3)[of mth' opj x] that by simp
  show ?case
  proof (cases "js_get pathItem mth")
    case None
    with Cons.prems(1) have "methodLoop h spec pth pathItem plp ms out = Inr out'" by simp
    from Cons.IH[OF this Cons.prems(2) step] show ?thesis .
  next
    case (Some opj)
    show ?thesis
    proof (cases "\<not> truthy opj \<or> \<not> typeof_object opj")
      case True
      with Some Cons.prems(1) have "methodLoop h spec pth pathItem plp ms out = Inr out'" by simp
      from Cons.IH[OF this Cons.prems(2) step] show ?thesis .
    next
      case False
      with Some Cons.prems(1) obtain x where
        x: "buildOperation h spec pth plp mth opj = Inr x"
        and rest: "methodLoop h spec pth pathItem plp ms (out @ [x]) = Inr out'"
        by (auto split: sum.splits)
      from Cons.prems(3)[of mth opj x] Some x have "P x" by simp
      with Cons.prems(2) have "\<forall>y \<in> set (out @ [x]). P y" by simp
      from Cons.IH[OF rest this step] show ?thesis .
    qed
  qed
qed

lemma pathLoop_all:
  assumes "pathLoop h spec items out = Inr out'"
    and "\<forall>x \<in> set out. P x"
    and "\<And>pth pathItem mth opj plp x. (pth, pathItem) \<in> set items \<Longrightarrow> mth \<in> set methods
            \<Longrightarrow> js_get pathItem mth = Some opj
            \<Longrightarrow> buildOperation h spec pth plp mth opj = Inr x \<Longrightarrow> P x"
  shows "\<forall>x \<in> set out'. P x"
  using assms
proof (induction items arbitrary: out)
  case Nil
  then show ?case by simp
next
  case (Cons item items)
  obtain pth pathItem where item: "item = (pth, pathItem)" by (cases item)
  have step: "P x" if "(pth, pathItem) \<in> set items" "mth \<in> set methods"
    "js_get pathItem mth = Some opj" "buildOperation h spec pth plp mth opj = Inr x"
    for pth pathItem mth opj plp x
    using Cons.prems(3)[of pth pathItem mth opj plp x] that by simp
  show ?case
  proof (cases "\<not> truthy pathItem \<or> \<not> typeof_object pathItem")
    case True
    with item Cons.prems(1) have "pathLoop h spec items out = Inr out'" by simp
    from Cons.IH[OF this Cons.prems(2) step] show ?thesis .
  next
    case False
    with item Cons.prems(1) obtain mid where
      mid: "methodLoop h spec pth pathItem (array_or_empty (js_get pathItem ''parameters'')) methods out = Inr mid"
      and rest: "pathLoop h spec items mid = Inr out'"
      by (auto split: sum.splits)
    have "\<forall>x \<in> set mid. P x"
    proof (rule methodLoop_all[OF mid Cons.prems(2)])
      fix mth opj x
      assume "mth \<in> set methods" "js_get pathItem mth = Some opj"
        "buildOperation h spec pth (array_or_empty (js_get pathItem ''parameters'')) mth opj = Inr x"
      with Cons.prems(3)[of pth pathItem mth opj _ x] item show "P x" by simp
    qed
    from Cons.IH[OF rest this step] show ?thesis .
  qed
qed

lemma buildOperation_fields:
  assumes "buildOperation h spec pth plp mth opj = Inr x"
  shows "path x = pth" "http_method x = toUpperCase mth"
    "requestContentType x = requestContentType_of (content_of opj)"
    "requestBodySchema_of h spec (content_of opj) (requestContentType x) = Inr (requestBodySchema x)"
  using assms by (auto simp: buildOperation_def Let_def split: sum.splits)

lemma buildApiOperations_all:
  assumes "buildApiOperations h spec = Inr ops" and "x \<in> set ops"
  shows "\<exists>paths pth pathItem mth opj.
           js_get spec ''paths'' = Some paths \<and> (pth, pathItem) \<in> set (entries paths)
         \<and> mth \<in> set methods \<and> js_get pathItem mth = Some opj
         \<and> path x = pth \<and> http_method x = toUpperCase mth
         \<and> requestContentType x = requestContentType_of (content_of opj)
         \<and> requestBodySchema_of h spec (content_of opj) (requestContentType x)
               = Inr (requestBodySchema x)"
proof -
  from assms obtain paths out where
    paths: "js_get spec ''paths'' = Some paths"
    and out: "pathLoop h spec (entries paths) [] = Inr out"
    and ops: "ops = sort_by (compareOps h) out"
    by (auto simp: buildApiOperations_def split: option.splits if_splits sum.splits)
  let ?P = "\<lambda>x. \<exists>pth pathItem mth opj.
           (pth, pathItem) \<in> set (entries paths)
         \<and> mth \<in> set methods \<and> js_get pathItem mth = Some opj
         \<and> path x = pth \<and> http_method x = toUpperCase mth
         \<and> requestContentType x = requestContentType_of (content_of opj)
         \<and> requestBodySchema_of h spec (content_of opj) (requestContentType x)
               = Inr (requestBodySchema x)"
  have "\<forall>x \<in> set out. ?P x"
  proof (rule pathLoop_all[OF out])
    show "\<forall>x \<in> set []. ?P x" by simp
  next
    fix pth pathItem mth opj plp x
    assume "(pth, pathItem) \<in> set (entries paths)" "mth \<in> set methods"
      "js_get pathItem mth = Some opj" "buildOperation h spec pth plp mth opj = Inr x"
    with buildOperation_fields[of h spec pth plp mth opj x] show "?P x" by blast
  qed
  with assms(2) ops paths show ?thesis by (simp add: set_sort_by)
qed

lemma composite_body:
  "\<exists>props req.
      buildApiInputCompositeSchema (Some operation)
        = JObj [(''type'', JStr ''object''), (''properties'', JObj props), (''required'', JArr req)]
    \<and> js_get (JObj props) ''body''
        = (if truthy (requestBodySchema operation)
              \<and> requestContentType operation = Some ''application/json''
           then Some (requestBodySchema operation) else None)"
proof -
  let ?pp = "filter (\<lambda>p. param_in p = ''path'') (parameters operation)"
  let ?qp = "filter (\<lambda>p. param_in p = ''query'') (parameters operation)"
  show ?thesis
    by (cases "?pp = []"; cases "?qp = []";
        cases "truthy (requestBodySchema operation) \<and> requestContentType operation = Some ''application/json''";
        cases "requestBodyRequired operation")
       (simp_all add: buildApiInputCompositeSchema_def Let_def)
qed

lemmas catalog_eval =
  buildApiOperations_def methods_def buildOperation_def content_of_def
  requestContentType_of_def requestBodySchema_of_def resolveSchema0_def resolveSchema.simps
  ref_of_def allOf_of_def resolveRef_def js_index_def js_or_def opt_get_def truthy_opt_def
  array_or_empty_def toUpperCase_def assign_def spread_entries_def Let_def

lemma example_paths_collected:
  "buildApiOperations h example_paths
     = Inr (sort_by (compareOps h)
          [plain_operation ''GET'' ''/b'', plain_operation ''GET'' ''/a'', plain_operation ''POST'' ''/a''])"
  by (simp add: catalog_eval example_paths_def plain_operation_def)

lemma example_paths_sorted:
  assumes "consistent_compare (localeCompare h)"
    and "localeCompare h ''/a'' ''/b'' < 0" and "localeCompare h ''GET'' ''POST'' < 0"
  shows "buildApiOperations h example_paths
     = Inr [plain_operation ''GET'' ''/a'', plain_operation ''POST'' ''/a'', plain_operation ''GET'' ''/b'']"
proof -
  have aa: "localeCompare h ''/a'' ''/a'' = 0"
    using consistent_sgn[OF assms(1), of "''/a''" "''/a''"] by (simp add: sgn_if split: if_splits)
  have ba: "\<not> localeCompare h ''/b'' ''/a'' \<le> 0" "localeCompare h ''/b'' ''/a'' \<noteq> 0"
    using consistent_pos[OF assms(1), of "''/b''" "''/a''"] assms(2) by auto
  have "buildApiOperations h example_paths
      = Inr (sort_by (compareOps h)
          [plain_operation ''GET'' ''/b'', plain_operation ''GET'' ''/a'', plain_operation ''POST'' ''/a''])"
    by (rule example_paths_collected)
  also have "sort_by (compareOps h)
          [plain_operation ''GET'' ''/b'', plain_operation ''GET'' ''/a'', plain_operation ''POST'' ''/a'']
      = [plain_operation ''GET'' ''/a'', plain_operation ''POST'' ''/a'', plain_operation ''GET'' ''/b'']"
    using aa ba assms(3) by (simp add: sort_by_def compareOps_def plain_operation_def)
  finally show ?thesis .
qed

text \<open>
  C6, as the specification states it, fails: the order is that of \<^verbatim>\<open>localeCompare\<close>, which
  is not the lexicographic order of the code units. Under a collation that puts punctuation
  before letters, as the engines' collations do, \<^verbatim>\<open>/users/{id}\<close> comes before \<^verbatim>\<open>/users/me\<close>
  in the catalog, while \<^verbatim>\<open>/users/me\<close> is the lexicographically smaller path (\<^verbatim>\<open>m\<close> is code
  unit 109, \<^verbatim>\<open>{\<close> is 123).
\<close>

theorem buildApiOperations_collation_counterexample:
  "buildApiOperations (sample_host\<lparr> localeCompare := punctuationFirstCompare \<rparr>) example_user_paths
     = Inr [plain_operation ''GET'' ''/users/{id}'', plain_operation ''GET'' ''/users/me'']
   \<and> ''/users/me'' < ''/users/{id}''"
  by (simp add: catalog_eval example_user_paths_def plain_operation_def sort_by_def compareOps_def
        punctuationFirstCompare_def collation_key_def codeUnitCompare_def sample_host_def)

text \<open>
  C6, amended. The catalog is sorted by \<^verbatim>\<open>String.prototype.localeCompare\<close>, the collation
  of the platform, taken to be one that \<^verbatim>\<open>sort\<close> can use: by it on the path, and by it on
  the upper-cased method where it ties two paths. Only where that collation is the
  code-unit order is this the lexicographic order of the paths, then of the methods. For
  paths \<^verbatim>\<open>/b\<close> with GET and \<^verbatim>\<open>/a\<close> with POST and GET, under any such collation that puts
  \<^verbatim>\<open>/a\<close> before \<^verbatim>\<open>/b\<close> and \<^verbatim>\<open>GET\<close> before \<^verbatim>\<open>POST\<close>, the catalog is \<^verbatim>\<open>/a\<close> GET, \<^verbatim>\<open>/a\<close> POST,
  \<^verbatim>\<open>/b\<close> GET.
\<close>

theorem buildApiOperations_sorted:
  assumes "consistent_compare (localeCompare h)" and "buildApiOperations h spec = Inr ops"
  shows "sorted_wrt (\<lambda>a b. localeCompare h (path a) (path b) < 0
                         \<or> (localeCompare h (path a) (path b) = 0
                             \<and> localeCompare h (http_method a) (http_method b) \<le> 0)) ops
       \<and> (localeCompare h = codeUnitCompare
            \<longrightarrow> sorted_wrt (\<lambda>a b. path a < path b
                                  \<or> (path a = path b \<and> http_method a \<le> http_method b)) ops)
       \<and> (spec = example_paths \<and> localeCompare h ''/a'' ''/b'' < 0
            \<and> localeCompare h ''GET'' ''POST'' < 0
            \<longrightarrow> map (\<lambda>x. (path x, http_method x)) ops
                  = [(''/a'', ''GET''), (''/a'', ''POST''), (''/b'', ''GET'')])"
proof -
  have srt: "sorted_wrt (\<lambda>a b. compareOps h a b \<le> 0) ops"
  proof (cases "js_get spec ''paths''")
    case None
    with assms(2) show ?thesis by (simp add: buildApiOperations_def)
  next
    case (Some paths)
    show ?thesis
    proof (cases "\<not> truthy paths \<or> \<not> typeof_object paths")
      case True
      with Some assms(2) show ?thesis by (auto simp: buildApiOperations_def)
    next
      case False
      with Some assms(2) obtain out where "ops = sort_by (compareOps h) out"
        by (auto simp: buildApiOperations_def split: sum.splits)
      then show ?thesis
        using sorted_sort_by[of "compareOps h" out] compareOps_total[OF assms(1)]
              compareOps_trans[OF assms(1)]
        by blast
    qed
  qed
  then have 1: "sorted_wrt (\<lambda>a b. localeCompare h (path a) (path b) < 0
                         \<or> (localeCompare h (path a) (path b) = 0
                             \<and> localeCompare h (http_method a) (http_method b) \<le> 0)) ops"
    by (simp add: compareOps_le)
  have 2: "sorted_wrt (\<lambda>a b. path a < path b
                                  \<or> (path a = path b \<and> http_method a \<le> http_method b)) ops"
    if "localeCompare h = codeUnitCompare"
    using 1 unfolding that
    by (rule sorted_wrt_mono_rel[rotated]) (auto simp: codeUnitCompare_def split: if_splits)
  have 3: "map (\<lambda>x. (path x, http_method x)) ops
                  = [(''/a'', ''GET''), (''/a'', ''POST''), (''/b'', ''GET'')]"
    if "spec = example_paths" "localeCompare h ''/a'' ''/b'' < 0" "localeCompare h ''GET'' ''POST'' < 0"
    using example_paths_sorted[OF assms(1) that(2,3)] assms(2) that(1)
    by (auto simp: plain_operation_def)
  from 1 2 3 show ?thesis by blast
qed

theorem buildApiOperations_sorted_witness:
  "consistent_compare (localeCompare sample_host)
   \<and> localeCompare sample_host = codeUnitCompare
   \<and> localeCompare sample_host ''/a'' ''/b'' < 0 \<and> localeCompare sample_host ''GET'' ''POST'' < 0
   \<and> buildApiOperations sample_host example_paths
       = Inr [plain_operation ''GET'' ''/a'', plain_operation ''POST'' ''/a'', plain_operation ''GET'' ''/b'']
   \<and> map (\<lambda>x. (path x, http_method x))
        [plain_operation ''GET'' ''/a'', plain_operation ''POST'' ''/a'', plain_operation ''GET'' ''/b'']
       = [(''/a'', ''GET''), (''/a'', ''POST''), (''/b'', ''GET'')]"
proof -
  have c: "consistent_compare (localeCompare sample_host)"
    by (simp add: sample_host_def codeUnitCompare_consistent)
  have lt: "localeCompare sample_host ''/a'' ''/b'' < 0" "localeCompare sample_host ''GET'' ''POST'' < 0"
    by (simp_all add: sample_host_def codeUnitCompare_def)
  have e: "buildApiOperations sample_host example_paths
       = Inr [plain_operation ''GET'' ''/a'', plain_operation ''POST'' ''/a'', plain_operation ''GET'' ''/b'']"
    by (rule example_paths_sorted[OF c lt])
  from buildApiOperations_sorted[OF c e] c lt e show ?thesis
    by (simp add: sample_host_def)
qed

text \<open>
  C5, as the specification states it, fails in its second half. A request body offered as
  \<^verbatim>\<open>text/plain\<close> only gives an operation whose content type is \<^verbatim>\<open>text/plain\<close> and whose
  request-body schema is the resolved schema of that entry, not \<^verbatim>\<open>null\<close>.
\<close>

theorem request_body_schema_counterexample:
  "buildApiOperations sample_host example_plain_body
     = Inr [\<lparr> op_id = ''POST /upload'', http_method = ''POST'', path = ''/upload'',
              summary = JStr ''POST /upload'', op_description = None, tags = [],
              operationId = None, parameters = [],
              requestBodySchema = JObj [(''type'', JStr ''string'')],
              requestBodyRequired = False, requestContentType = Some ''text/plain'',
              responses = JObj [] \<rparr>]"
  by (simp add: catalog_eval example_plain_body_def sort_by_def)

text \<open>
  C5, amended. Every operation of the catalog comes from an operation object of the
  document. Its content type is \<^verbatim>\<open>application/json\<close> when the content map has a truthy
  entry under that key, otherwise the first key of the map when that is a non-empty string,
  otherwise none. Its request-body schema is the resolved schema of the entry of the chosen
  type, whatever the type, and \<^verbatim>\<open>null\<close> when none is chosen or the entry has no schema.
  Only with \<^verbatim>\<open>application/json\<close> does the schema enter the composite input schema as
  \<^verbatim>\<open>body\<close>.
\<close>

theorem request_content_type:
  assumes "buildApiOperations h spec = Inr ops" and "operation \<in> set ops"
  shows "\<exists>paths pth pathItem mth opj props req.
           js_get spec ''paths'' = Some paths \<and> (pth, pathItem) \<in> set (entries paths)
         \<and> mth \<in> set methods \<and> js_get pathItem mth = Some opj
         \<and> path operation = pth \<and> http_method operation = toUpperCase mth
         \<and> requestContentType operation
             = (if truthy_opt (js_get (content_of opj) ''application/json'')
                then Some ''application/json''
                else case map fst (entries (content_of opj)) of
                       [] \<Rightarrow> None
                     | k # ks \<Rightarrow> if k \<noteq> [] then Some k else None)
         \<and> (case requestContentType operation of
               None \<Rightarrow> requestBodySchema operation = JNull
             | Some t \<Rightarrow>
                 resolveSchema0 h (js_or (opt_get (js_get (content_of opj) t) ''schema'') JNull) spec
                   = Inr (requestBodySchema operation))
         \<and> buildApiInputCompositeSchema (Some operation)
             = JObj [(''type'', JStr ''object''), (''properties'', JObj props), (''required'', JArr req)]
         \<and> (js_get (JObj props) ''body'' \<noteq> None
              \<longrightarrow> requestContentType operation = Some ''application/json'')"
proof -
  from buildApiOperations_all[OF assms] obtain paths pth pathItem mth opj where
    a: "js_get spec ''paths'' = Some paths" "(pth, pathItem) \<in> set (entries paths)"
       "mth \<in> set methods" "js_get pathItem mth = Some opj"
       "path operation = pth" "http_method operation = toUpperCase mth"
    and ct: "requestContentType operation = requestContentType_of (content_of opj)"
    and bs: "requestBodySchema_of h spec (content_of opj) (requestContentType operation)
               = Inr (requestBodySchema operation)"
    by blast
  from composite_body[of operation] obtain props req where
    c: "buildApiInputCompositeSchema (Some operation)
          = JObj [(''type'', JStr ''object''), (''properties'', JObj props), (''required'', JArr req)]"
    and b: "js_get (JObj props) ''body''
        = (if truthy (requestBodySchema operation)
              \<and> requestContentType operation = Some ''application/json''
           then Some (requestBodySchema operation) else None)"
    by blast
  from b have "js_get (JObj props) ''body'' \<noteq> None
              \<longrightarrow> requestContentType operation = Some ''application/json''"
    by (simp split: if_splits)
  moreover from bs have "case requestContentType operation of
               None \<Rightarrow> requestBodySchema operation = JNull
             | Some t \<Rightarrow>
                 resolveSchema0 h (js_or (opt_get (js_get (content_of opj) t) ''schema'') JNull) spec
                   = Inr (requestBodySchema operation)"
    by (auto simp: requestBodySchema_of_def split: option.splits)
  ultimately show ?thesis
    using a c ct[unfolded requestContentType_of_def] by blast
qed

theorem request_content_type_witness:
  "buildApiOperations sample_host example_json_body
     = Inr [\<lparr> op_id = ''POST /pets'', http_method = ''POST'', path = ''/pets'',
              summary = JStr ''POST /pets'', op_description = None, tags = [],
              operationId = None, parameters = [],
              requestBodySchema = JObj [(''type'', JStr ''object'')],
              requestBodyRequired = False, requestContentType = Some ''application/json'',
              responses = JObj [] \<rparr>]
   \<and> buildApiInputCompositeSchema
        (Some \<lparr> op_id = ''POST /pets'', http_method = ''POST'', path = ''/pets'',
              summary = JStr ''POST /pets'', op_description = None, tags = [],
              operationId = None, parameters = [],
              requestBodySchema = JObj [(''type'', JStr ''object'')],
              requestBodyRequired = False, requestContentType = Some ''application/json'',
              responses = JObj [] \<rparr>)
       = JObj [(''type'', JStr ''object''),
               (''properties'', JObj [(''body'', JObj [(''type'', JStr ''object'')])]),
               (''required'', JArr [])]
   \<and> js_get (JObj [(''body'', JObj [(''type'', JStr ''object'')])]) ''body'' \<noteq> None"
proof -
  let ?operation = "\<lparr> op_id = ''POST /pets'', http_method = ''POST'', path = ''/pets'',
              summary = JStr ''POST /pets'', op_description = None, tags = [],
              operationId = None, parameters = [],
              requestBodySchema = JObj [(''type'', JStr ''object'')],
              requestBodyRequired = False, requestContentType = Some ''application/json'',
              responses = JObj [] \<rparr>"
  have e: "buildApiOperations sample_host example_json_body = Inr [?operation]"
    by (simp add: catalog_eval example_json_body_def sort_by_def)
  have m: "?operation \<in> set [?operation]" by simp
  from request_content_type[OF e m] e show ?thesis
    by (simp add: buildApiInputCompositeSchema_def)
qed

section \<open>Claims about the debug HTTP wrapper\<close>



section \<open>Claims about saving a recommendation result\<close>

lemma sort_mset_eq: "mset xs = mset ys \<Longrightarrow> sort xs = sort (ys :: string list)"
  by (rule properties_for_sort) simp_all

lemma saveRecommendationResult_unfold:
  "saveRecommendationResult props now outcome result st =
     (if \<not> can_save props \<or> resultId now result \<in> savedRecommendationIds st then st
      else save_resume outcome (resultId now result, textContent result, result) st)"
  by (simp add: saveRecommendationResult_def save_run_def save_call_def)

text \<open>
  C9. The identifier is as the claim says: for a result with restaurants, their keys (the
  id, or the name where the id is absent or empty), sorted and joined by commas, so two
  results with the same keys in any order have one identifier; for a result with none it is
  \<^verbatim>\<open>empty-\<close> and the time of the call. A call whose identifier is already saved changes
  nothing, and after a call that ran to its end and saved, a second call with the same
  identifier is such a call. But the identifier is saved only after \<^verbatim>\<open>await addMessage\<close>
  and after \<^verbatim>\<open>onMessageAdded\<close>, so the operation is not idempotent: a second call with the
  same identifier that starts while the first stands at the \<^verbatim>\<open>await\<close> persists the message a
  second time, and so does a second call after a first whose \<^verbatim>\<open>onMessageAdded\<close> threw.
\<close>

theorem saveRecommendationResult_overlapping_calls:
  "(restaurants result \<noteq> []
      \<longrightarrow> resultId now result = join '','' (sort (map restaurant_key (restaurants result))))
   \<and> (restaurants result = [] \<longrightarrow> resultId now result = ''empty-'' @ show_nat now)
   \<and> (restaurants r1 \<noteq> []
        \<and> mset (map restaurant_key (restaurants r1)) = mset (map restaurant_key (restaurants r2))
      \<longrightarrow> resultId n1 r1 = resultId n2 r2)
   \<and> (resultId n2 r2 \<in> savedRecommendationIds st
      \<longrightarrow> save_call props n2 r2 st = st
        \<and> saveRecommendationResult props n2 outcome r2 st = st)
   \<and> (resultId n2 r2 = resultId n1 r1
      \<longrightarrow> saveRecommendationResult props n2 outcome r2
            (saveRecommendationResult props n1 Saved r1 st)
          = saveRecommendationResult props n1 Saved r1 st)
   \<and> (can_save props \<and> resultId n1 r1 \<notin> savedRecommendationIds st
        \<and> resultId n2 r2 = resultId n1 r1 \<and> awaiting st = []
      \<longrightarrow> save_run props [Call n1 r1, Call n2 r2, Settle 0 Saved, Settle 0 Saved] st
            = st\<lparr> persisted := persisted st @ [(''assistant'', textContent r1, r1),
                                               (''assistant'', textContent r2, r2)],
                  notified := notified st @ [(''assistant'', textContent r1),
                                             (''assistant'', textContent r2)],
                  savedRecommendationIds := insert (resultId n1 r1) (savedRecommendationIds st) \<rparr>
        \<and> saveRecommendationResult props n2 Saved r2
            (saveRecommendationResult props n1 OnMessageAddedThrows r1 st)
            = st\<lparr> persisted := persisted st @ [(''assistant'', textContent r1, r1),
                                               (''assistant'', textContent r2, r2)],
                  notified := notified st @ [(''assistant'', textContent r2)],
                  savedRecommendationIds := insert (resultId n1 r1) (savedRecommendationIds st) \<rparr>)"
proof -
  have 2: "resultId n1 r1 = resultId n2 r2"
    if "restaurants r1 \<noteq> []"
       "mset (map restaurant_key (restaurants r1)) = mset (map restaurant_key (restaurants r2))"
  proof -
    from that have "restaurants r2 \<noteq> []" by auto
    with that sort_mset_eq[OF that(2)] show ?thesis by (simp add: resultId_def)
  qed
  have 3: "save_call props n2 r2 st = st \<and> saveRecommendationResult props n2 outcome r2 st = st"
    if "resultId n2 r2 \<in> savedRecommendationIds st"
    using that by (simp add: saveRecommendationResult_unfold save_call_def)
  have 4: "saveRecommendationResult props n2 outcome r2
            (saveRecommendationResult props n1 Saved r1 st)
          = saveRecommendationResult props n1 Saved r1 st"
    if "resultId n2 r2 = resultId n1 r1"
    using that by (simp add: saveRecommendationResult_unfold save_resume_def)
  have 5: "save_run props [Call n1 r1, Call n2 r2, Settle 0 Saved, Settle 0 Saved] st
            = st\<lparr> persisted := persisted st @ [(''assistant'', textContent r1, r1),
                                               (''assistant'', textContent r2, r2)],
                  notified := notified st @ [(''assistant'', textContent r1),
                                             (''assistant'', textContent r2)],
                  savedRecommendationIds := insert (resultId n1 r1) (savedRecommendationIds st) \<rparr>"
    if "can_save props" "resultId n1 r1 \<notin> savedRecommendationIds st"
       "resultId n2 r2 = resultId n1 r1" "awaiting st = []"
    using that by (simp add: save_run_def save_call_def save_resume_def)
  have 6: "saveRecommendationResult props n2 Saved r2
            (saveRecommendationResult props n1 OnMessageAddedThrows r1 st)
            = st\<lparr> persisted := persisted st @ [(''assistant'', textContent r1, r1),
                                               (''assistant'', textContent r2, r2)],
                  notified := notified st @ [(''assistant'', textContent r2)],
                  savedRecommendationIds := insert (resultId n1 r1) (savedRecommendationIds st) \<rparr>"
    if "can_save props" "resultId n1 r1 \<notin> savedRecommendationIds st"
       "resultId n2 r2 = resultId n1 r1"
    using that by (simp add: saveRecommendationResult_unfold save_resume_def)
  from 2 3 4 5 6 show ?thesis by (simp add: resultId_def)
qed

theorem saveRecommendationResult_overlapping_calls_witness:
  "restaurants \<lparr> restaurants = [\<lparr> restaurant_id = Some ''r2'', restaurant_name = ''Bistro'' \<rparr>,
                                  \<lparr> restaurant_id = None, restaurant_name = ''Aroma'' \<rparr>] \<rparr> \<noteq> []
   \<and> resultId 5 \<lparr> restaurants = [\<lparr> restaurant_id = Some ''r2'', restaurant_name = ''Bistro'' \<rparr>,
                                   \<lparr> restaurant_id = None, restaurant_name = ''Aroma'' \<rparr>] \<rparr>
       = ''Aroma,r2''
   \<and> resultId 9 \<lparr> restaurants = [\<lparr> restaurant_id = None, restaurant_name = ''Aroma'' \<rparr>,
                                   \<lparr> restaurant_id = Some ''r2'', restaurant_name = ''Bistro'' \<rparr>] \<rparr>
       = ''Aroma,r2''
   \<and> restaurants \<lparr> restaurants = [] \<rparr> = [] \<and> resultId 5 \<lparr> restaurants = [] \<rparr> = ''empty-5''
   \<and> can_save \<lparr> conversationId = Some ''c1'', userId = Some ''u1'', onMessageAdded = True \<rparr>
   \<and> ''Aroma,r2'' \<notin> {}
   \<and> ''Aroma,r2'' \<in> {''Aroma,r2''}
   \<and> saveRecommendationResult
        \<lparr> conversationId = Some ''c1'', userId = Some ''u1'', onMessageAdded = True \<rparr> 9 Saved
        \<lparr> restaurants = [\<lparr> restaurant_id = None, restaurant_name = ''Aroma'' \<rparr>,
                          \<lparr> restaurant_id = Some ''r2'', restaurant_name = ''Bistro'' \<rparr>] \<rparr>
        (saveRecommendationResult
           \<lparr> conversationId = Some ''c1'', userId = Some ''u1'', onMessageAdded = True \<rparr> 5 Saved
           \<lparr> restaurants = [\<lparr> restaurant_id = Some ''r2'', restaurant_name = ''Bistro'' \<rparr>,
                             \<lparr> restaurant_id = None, restaurant_name = ''Aroma'' \<rparr>] \<rparr>
           \<lparr> savedRecommendationIds = {}, persisted = [], notified = [], awaiting = [] \<rparr>)
       = \<lparr> savedRecommendationIds = {''Aroma,r2''},
           persisted = [(''assistant'', ''Found 2 restaurant recommendations: Bistro, Aroma'',
                         \<lparr> restaurants = [\<lparr> restaurant_id = Some ''r2'', restaurant_name = ''Bistro'' \<rparr>,
                                           \<lparr> restaurant_id = None, restaurant_name = ''Aroma'' \<rparr>] \<rparr>)],
           notified = [(''assistant'', ''Found 2 restaurant recommendations: Bistro, Aroma'')],
           awaiting = [] \<rparr>
   \<and> save_run \<lparr> conversationId = Some ''c1'', userId = Some ''u1'', onMessageAdded = True \<rparr>
        [Call 5 \<lparr> restaurants = [\<lparr> restaurant_id = Some ''r2'', restaurant_name = ''Bistro'' \<rparr>,
                                   \<lparr> restaurant_id = None, restaurant_name = ''Aroma'' \<rparr>] \<rparr>,
         Call 9 \<lparr> restaurants = [\<lparr> restaurant_id = None, restaurant_name = ''Aroma'' \<rparr>,
                                   \<lparr> restaurant_id = Some ''r2'', restaurant_name = ''Bistro'' \<rparr>] \<rparr>,
         Settle 0 Saved, Settle 0 Saved]
        \<lparr> savedRecommendationIds = {}, persisted = [], notified = [], awaiting = [] \<rparr>
       = \<lparr> savedRecommendationIds = {''Aroma,r2''},
           persisted = [(''assistant'', ''Found 2 restaurant recommendations: Bistro, Aroma'',
                         \<lparr> restaurants = [\<lparr> restaurant_id = Some ''r2'', restaurant_name = ''Bistro'' \<rparr>,
                                           \<lparr> restaurant_id = None, restaurant_name = ''Aroma'' \<rparr>] \<rparr>),
                        (''assistant'', ''Found 2 restaurant recommendations: Aroma, Bistro'',
                         \<lparr> restaurants = [\<lparr> restaurant_id = None, restaurant_name = ''Aroma'' \<rparr>,
                                           \<lparr> restaurant_id = Some ''r2'', restaurant_name = ''Bistro'' \<rparr>] \<rparr>)],
           notified = [(''assistant'', ''Found 2 restaurant recommendations: Bistro, Aroma''),
                       (''assistant'', ''Found 2 restaurant recommendations: Aroma, Bistro'')],
           awaiting = [] \<rparr>"
  using
    saveRecommendationResult_overlapping_calls[where
      result = "\<lparr> restaurants = [\<lparr> restaurant_id = Some ''r2'', restaurant_name = ''Bistro'' \<rparr>,
                        \<lparr> restaurant_id = None, restaurant_name = ''Aroma'' \<rparr>] \<rparr>"
      and now = 5
      and ?r1.0 = "\<lparr> restaurants = [\<lparr> restaurant_id = Some ''r2'', restaurant_name = ''Bistro'' \<rparr>,
                        \<lparr> restaurant_id = None, restaurant_name = ''Aroma'' \<rparr>] \<rparr>"
      and ?r2.0 = "\<lparr> restaurants = [\<lparr> restaurant_id = None, restaurant_name = ''Aroma'' \<rparr>,
                        \<lparr> restaurant_id = Some ''r2'', restaurant_name = ''Bistro'' \<rparr>] \<rparr>"
      and ?n1.0 = 5 and ?n2.0 = 9
      and st = "\<lparr> savedRecommendationIds = {}, persisted = [], notified = [], awaiting = [] \<rparr>"
      and props = "\<lparr> conversationId = Some ''c1'', userId = Some ''u1'', onMessageAdded = True \<rparr>"
      and outcome = Saved]
    saveRecommendationResult_overlapping_calls[where
      result = "\<lparr> restaurants = [] \<rparr>" and now = 5
      and ?r2.0 = "\<lparr> restaurants = [\<lparr> restaurant_id = None, restaurant_name = ''Aroma'' \<rparr>,
                        \<lparr> restaurant_id = Some ''r2'', restaurant_name = ''Bistro'' \<rparr>] \<rparr>"
      and ?n2.0 = 9
      and st = "\<lparr> savedRecommendationIds = {''Aroma,r2''}, persisted = [], notified = [], awaiting = [] \<rparr>"
      and props = "\<lparr> conversationId = Some ''c1'', userId = Some ''u1'', onMessageAdded = True \<rparr>"
      and outcome = Saved]
  by (simp add: resultId_def restaurant_key_def saveRecommendationResult_unfold save_run_def
        save_call_def save_resume_def can_save_def textContent_def
        show_nat.simps[of "Suc (Suc 0)"] show_nat.simps[of 5])

end
